theory Spec2Isabelle
  imports
    Main
    "HOL-Library.Word"
    "HOL-Library.Char_ord"
    "HOL-Library.List_Lexorder"
    "HOL-Library.Sublist"
    "HOL-Library.AList"
begin

section \<open>Bytes, hashes and the hex codec\<close>

text \<open>
  A block hash is a Go \<^verbatim>\<open>[]byte\<close>: a list of 8-bit words of any length. Strings are
  byte strings; with \<open>Char_ord\<close> and \<open>List_Lexorder\<close> the order \<open><\<close> on
  \<^typ>\<open>string\<close> and on byte lists is the byte-lexicographic one.
\<close>

type_synonym byte = "8 word"
type_synonym bytes = "byte list"

definition string_of_bytes :: "bytes \<Rightarrow> string" where
  "string_of_bytes bs = map (\<lambda>b. char_of (unat b)) bs"

definition bytes_of_string :: "string \<Rightarrow> bytes" where
  "bytes_of_string s = map (\<lambda>c. of_nat (of_char c)) s"

definition hextable :: string where
  "hextable = ''0123456789abcdef''"

definition hex_byte :: "byte \<Rightarrow> string" where
  "hex_byte b = [hextable ! (unat b div 16), hextable ! (unat b mod 16)]"

text \<open>
  Modelled from the spec: \<^verbatim>\<open>hashutil.HashToStringMapKey\<close> is not under src/. The spec
  (4.1) has \<^verbatim>\<open>block_key(H) = "blocks/" || hex(H)\<close> with a stable, case-fixed character
  mapping, and the enumeration uses the key of the one-byte hash \<^verbatim>\<open>[b]\<close> as the prefix
  of every hash starting with \<^verbatim>\<open>b\<close>: two lower-case hex digits per byte.
\<close>

definition HashToStringMapKey :: "bytes \<Rightarrow> string" where
  "HashToStringMapKey h = concat (map hex_byte h)"

definition hex_val :: "char \<Rightarrow> nat option" where
  "hex_val c =
     (let n = (of_char c :: nat) in
      if 48 \<le> n \<and> n \<le> 57 then Some (n - 48)
      else if 97 \<le> n \<and> n \<le> 102 then Some (n - 87)
      else None)"

text \<open>
  Modelled from the spec: \<^verbatim>\<open>hashutil.StringMapKeyToHashNoError\<close> is not under src/. It is
  the inverse of the hex codec; on a string that is not a hex encoding the decoding stops
  at the first pair that is not two hex digits (the error is dropped).
\<close>

fun StringMapKeyToHashNoError :: "string \<Rightarrow> bytes" where
  "StringMapKeyToHashNoError (c # d # rest) =
     (case (hex_val c, hex_val d) of
        (Some hi, Some lo) \<Rightarrow> of_nat (hi * 16 + lo) # StringMapKeyToHashNoError rest
      | _ \<Rightarrow> [])"
| "StringMapKeyToHashNoError _ = []"

section \<open>Key schema\<close>

definition BlockDataSubFolder :: string where
  "BlockDataSubFolder = ''blocks''"

definition MetaDataSubFolder :: string where
  "MetaDataSubFolder = ''meta''"

definition BLOCK_DELETE_TAG :: string where
  "BLOCK_DELETE_TAG = ''deletion-by''"

definition BLOCK_USE_TAG :: string where
  "BLOCK_USE_TAG = ''used-by''"

definition getBlockStringKey :: "bytes \<Rightarrow> string" where
  "getBlockStringKey h = BlockDataSubFolder @ ''/'' @ HashToStringMapKey h"

definition getMetadataStringKey :: "string \<Rightarrow> string" where
  "getMetadataStringKey name = MetaDataSubFolder @ ''/'' @ name"

section \<open>The bucket\<close>

text \<open>
  The object store behind \<^verbatim>\<open>blob.Bucket\<close> is the environment of the program. A world
  holds the objects of the bucket (an association list from key to body and modification
  time), the wall clock in nanoseconds, a script of outcomes for the coming bucket calls
  (\<open>True\<close>: the call fails with a transient error; an empty script: every call
  succeeds), the log of the bucket calls made so far and the warnings logged.
\<close>

record object =
  content :: bytes
  modTime :: int

datatype bucket_call =
    CallExists string
  | CallWriteAll string
  | CallDelete string
  | CallReadAll string
  | CallListPage string nat nat

record world =
  objects :: "(string \<times> object) list"
  clock :: int
  faults :: "bool list"
  calls :: "bucket_call list"
  warnings :: "string list"

datatype error = TransientIO | NotFound | ReadOnly string | Canceled

definition enter_call :: "bucket_call \<Rightarrow> world \<Rightarrow> bool \<times> world" where
  "enter_call c w =
     (case faults w of
        [] \<Rightarrow> (False, w\<lparr>calls := calls w @ [c]\<rparr>)
      | f # fs \<Rightarrow> (f, w\<lparr>faults := fs, calls := calls w @ [c]\<rparr>))"

definition bucket_Exists :: "string \<Rightarrow> world \<Rightarrow> (error + bool) \<times> world" where
  "bucket_Exists key w =
     (case enter_call (CallExists key) w of
        (True, w') \<Rightarrow> (Inl TransientIO, w')
      | (False, w') \<Rightarrow> (Inr (map_of (objects w') key \<noteq> None), w'))"

definition bucket_WriteAll :: "string \<Rightarrow> bytes \<Rightarrow> world \<Rightarrow> error option \<times> world" where
  "bucket_WriteAll key data w =
     (case enter_call (CallWriteAll key) w of
        (True, w') \<Rightarrow> (Some TransientIO, w')
      | (False, w') \<Rightarrow>
          (None, w'\<lparr>objects :=
             AList.update key \<lparr>content = data, modTime = clock w'\<rparr> (objects w')\<rparr>))"

definition bucket_Delete :: "string \<Rightarrow> world \<Rightarrow> error option \<times> world" where
  "bucket_Delete key w =
     (case enter_call (CallDelete key) w of
        (True, w') \<Rightarrow> (Some TransientIO, w')
      | (False, w') \<Rightarrow>
          (if map_of (objects w') key = None then (Some NotFound, w')
           else (None, w'\<lparr>objects := AList.delete key (objects w')\<rparr>)))"

definition bucket_ReadAll :: "string \<Rightarrow> world \<Rightarrow> (error + bytes) \<times> world" where
  "bucket_ReadAll key w =
     (case enter_call (CallReadAll key) w of
        (True, w') \<Rightarrow> (Inl TransientIO, w')
      | (False, w') \<Rightarrow>
          (case map_of (objects w') key of
             None \<Rightarrow> (Inl NotFound, w')
           | Some ob \<Rightarrow> (Inr (content ob), w')))"

record ListObject =
  Key :: string
  ModTime :: int

text \<open>
  The listing of a prefix: the keys of the bucket that start with it, each once, in
  byte-lexicographic order. A page token is an offset into that listing, \<open>0\<close> for the first page;
  the next token is \<open>None\<close> (the empty token) after the last page.
\<close>

definition list_object :: "world \<Rightarrow> string \<Rightarrow> ListObject" where
  "list_object w k =
     \<lparr>Key = k, ModTime = (case map_of (objects w) k of None \<Rightarrow> 0 | Some ob \<Rightarrow> modTime ob)\<rparr>"

definition listing :: "string \<Rightarrow> world \<Rightarrow> ListObject list" where
  "listing pfx w =
     map (list_object w) (sort (remdups (filter (prefix pfx) (map fst (objects w)))))"

definition bucket_ListPage ::
  "nat \<Rightarrow> nat \<Rightarrow> string \<Rightarrow> world \<Rightarrow> (error + ListObject list \<times> nat option) \<times> world" where
  "bucket_ListPage token pageSize pfx w =
     (case enter_call (CallListPage pfx token pageSize) w of
        (True, w') \<Rightarrow> (Inl TransientIO, w')
      | (False, w') \<Rightarrow>
          (let l = listing pfx w' in
           (Inr (take pageSize (drop token l),
                 if token + pageSize < length l then Some (token + pageSize) else None),
            w')))"

definition sleep :: "int \<Rightarrow> world \<Rightarrow> world" where
  "sleep d w = w\<lparr>clock := clock w + d\<rparr>"

definition Warnf :: "string \<Rightarrow> world \<Rightarrow> world" where
  "Warnf msg w = w\<lparr>warnings := warnings w @ [msg]\<rparr>"

definition minute :: int where
  "minute = 60000000000"

text \<open>
  Modelled from the spec: the constant \<^verbatim>\<open>TIME_CONSTANT_BASE\<close> is not under src/. The spec
  (6) fixes the freshness window of \<^verbatim>\<open>deletion-by\<close> tags at one minute.
\<close>

definition TIME_CONSTANT_BASE :: int where
  "TIME_CONSTANT_BASE = minute"

definition fresh_bucket :: world where
  "fresh_bucket = \<lparr>objects = [], clock = 0, faults = [], calls = [], warnings = []\<rparr>"

section \<open>Go library functions used by the store\<close>

definition CutPrefix :: "string \<Rightarrow> string \<Rightarrow> string \<times> bool" where
  "CutPrefix s pfx = (if prefix pfx s then (drop (length pfx) s, True) else (s, False))"

text \<open>\<^verbatim>\<open>strings.Split(s, ".")\<close>: the pieces of \<open>s\<close> between the separators, never empty.\<close>

fun Split :: "string \<Rightarrow> char \<Rightarrow> string list" where
  "Split [] sep = [[]]"
| "Split (c # cs) sep =
     (if c = sep then [] # Split cs sep
      else (case Split cs sep of [] \<Rightarrow> [[c]] | p # ps \<Rightarrow> (c # p) # ps))"

definition digit_val :: "char \<Rightarrow> nat option" where
  "digit_val c =
     (let n = (of_char c :: nat) in if 48 \<le> n \<and> n \<le> 57 then Some (n - 48) else None)"

fun parse_digits :: "string \<Rightarrow> int \<Rightarrow> int option" where
  "parse_digits [] acc = Some acc"
| "parse_digits (c # cs) acc =
     (case digit_val c of None \<Rightarrow> None | Some d \<Rightarrow> parse_digits cs (acc * 10 + int d))"

text \<open>
  \<^verbatim>\<open>strconv.Atoi\<close> on a 64-bit platform: an optional sign, at least one decimal digit and
  nothing else; a value outside the range of \<^verbatim>\<open>int\<close> is an error.
\<close>

definition Atoi :: "string \<Rightarrow> int option" where
  "Atoi s =
     (case s of
        [] \<Rightarrow> None
      | c # cs \<Rightarrow>
          (let neg = (c = CHR ''-'');
               ds = (if c = CHR ''-'' \<or> c = CHR ''+'' then cs else s)
           in if ds = [] then None
              else (case parse_digits ds 0 of
                      None \<Rightarrow> None
                    | Some n \<Rightarrow>
                        (let v = (if neg then - n else n)
                         in if - (2 ^ 63) \<le> v \<and> v < 2 ^ 63 then Some v else None))))"

section \<open>The block store handle\<close>

record GoCloudUrlStorage =
  url :: string
  myDeviceId :: string

definition IsReadOnly :: "GoCloudUrlStorage \<Rightarrow> bool" where
  "IsReadOnly hm = (myDeviceId hm = [])"

definition getATag :: "GoCloudUrlStorage \<Rightarrow> bytes \<Rightarrow> string \<Rightarrow> string" where
  "getATag hm h tag = getBlockStringKey h @ ''.'' @ tag @ ''.'' @ myDeviceId hm"

definition putATag ::
  "GoCloudUrlStorage \<Rightarrow> bytes \<Rightarrow> string \<Rightarrow> bool \<Rightarrow> world \<Rightarrow> error option \<times> world" where
  "putATag hm h tag updateTime w =
     (if IsReadOnly hm then (Some (ReadOnly ''putATag: read only''), w)
      else
        (let hashDeviceTagKey = getATag hm h tag in
         if \<not> updateTime then
           (case bucket_Exists hashDeviceTagKey w of
              (Inl err, w') \<Rightarrow> (Some err, w')
            | (Inr existsAlready, w') \<Rightarrow>
                (if existsAlready then (None, w')
                 else bucket_WriteAll hashDeviceTagKey [] w'))
         else bucket_WriteAll hashDeviceTagKey [] w))"

definition removeATag ::
  "GoCloudUrlStorage \<Rightarrow> bytes \<Rightarrow> string \<Rightarrow> world \<Rightarrow> error option \<times> world" where
  "removeATag hm h tag w =
     (if IsReadOnly hm then (Some (ReadOnly ''removeATag: read only''), w)
      else bucket_Delete (getBlockStringKey h @ ''.'' @ tag @ ''.'' @ myDeviceId hm) w)"

definition AnnounceDelete :: "GoCloudUrlStorage \<Rightarrow> bytes \<Rightarrow> world \<Rightarrow> error option \<times> world" where
  "AnnounceDelete hm h w = putATag hm h BLOCK_DELETE_TAG True w"

definition DeAnnounceDelete :: "GoCloudUrlStorage \<Rightarrow> bytes \<Rightarrow> world \<Rightarrow> error option \<times> world" where
  "DeAnnounceDelete hm h w = removeATag hm h BLOCK_DELETE_TAG w"

definition UncheckedDelete :: "GoCloudUrlStorage \<Rightarrow> bytes \<Rightarrow> world \<Rightarrow> error option \<times> world" where
  "UncheckedDelete hm h w =
     (if IsReadOnly hm then (Some (ReadOnly ''UncheckedDelete: read only''), w)
      else bucket_Delete (getBlockStringKey h) w)"

definition GetMeta :: "GoCloudUrlStorage \<Rightarrow> string \<Rightarrow> world \<Rightarrow> (bytes \<times> bool) \<times> world" where
  "GetMeta hm name w =
     (case bucket_ReadAll (getMetadataStringKey name) w of
        (Inl err, w') \<Rightarrow> (([], False), w')
      | (Inr data, w') \<Rightarrow> ((data, True), w'))"

definition SetMeta :: "GoCloudUrlStorage \<Rightarrow> string \<Rightarrow> bytes \<Rightarrow> world \<Rightarrow> world" where
  "SetMeta hm name data w =
     (if IsReadOnly hm then Warnf ''SetMeta: read only'' w
      else snd (bucket_WriteAll (getMetadataStringKey name) data w))"

definition DeleteMeta :: "GoCloudUrlStorage \<Rightarrow> string \<Rightarrow> world \<Rightarrow> world" where
  "DeleteMeta hm name w =
     (if IsReadOnly hm then Warnf ''SetMeta: read only'' w
      else snd (bucket_Delete (getMetadataStringKey name) w))"

definition GetBlockHashesCountHint :: "GoCloudUrlStorage \<Rightarrow> world \<Rightarrow> int \<times> world" where
  "GetBlockHashesCountHint hm w =
     (let minimum = 100 in
      case GetMeta hm ''BlockCountHint'' w of
        ((data, False), w') \<Rightarrow> (minimum, w')
      | ((data, True), w') \<Rightarrow>
          (case Atoi (string_of_bytes data) of
             None \<Rightarrow> (minimum, w')
           | Some hint \<Rightarrow> (if hint < minimum then minimum else hint, w')))"


subsection \<open>Reserving and reading a block\<close>

record scan_state =
  usesMap :: "(string \<times> ListObject) list"
  deletesMap :: "(string \<times> ListObject) list"
  dataEntry :: "ListObject option"

definition scan_entry :: "string \<Rightarrow> int \<Rightarrow> ListObject \<Rightarrow> scan_state \<Rightarrow> scan_state" where
  "scan_entry pfx now entry s =
     (let suffix = fst (CutPrefix (Key entry) pfx) in
      if length suffix = 0 then s\<lparr>dataEntry := Some entry\<rparr>
      else
        (case CutPrefix suffix (''.'' @ BLOCK_USE_TAG @ ''.'') of
           (deviceId, True) \<Rightarrow> s\<lparr>usesMap := AList.update deviceId entry (usesMap s)\<rparr>
         | (_, False) \<Rightarrow>
             (case CutPrefix suffix (''.'' @ BLOCK_DELETE_TAG @ ''.'') of
                (deviceId, True) \<Rightarrow>
                  (if now - ModTime entry < TIME_CONSTANT_BASE
                   then s\<lparr>deletesMap := AList.update deviceId entry (deletesMap s)\<rparr>
                   else s)
              | (_, False) \<Rightarrow> s)))"

definition scan_page :: "string \<Rightarrow> int \<Rightarrow> ListObject list \<Rightarrow> scan_state" where
  "scan_page pfx now page =
     fold (scan_entry pfx now) page \<lparr>usesMap = [], deletesMap = [], dataEntry = None\<rparr>"

text \<open>The part of \<^verbatim>\<open>reserveAndCheckExistence\<close> after the tag put: one page of ten keys.\<close>

definition checkExistence :: "bytes \<Rightarrow> world \<Rightarrow> (bool \<times> bool) \<times> world" where
  "checkExistence h w =
     (let hashKey = getBlockStringKey h in
      case bucket_ListPage 0 10 hashKey w of
        (Inl err, w') \<Rightarrow> ((False, False), w')
      | (Inr (page, nextPageToken), w') \<Rightarrow>
          (let s = scan_page hashKey (clock w') page in
           if length (deletesMap s) > 0 then ((False, True), w')
           else if dataEntry s = None then ((False, False), w')
           else ((True, False), w')))"

definition reserveAndCheckExistence ::
  "GoCloudUrlStorage \<Rightarrow> bytes \<Rightarrow> world \<Rightarrow> (bool \<times> bool) \<times> world" where
  "reserveAndCheckExistence hm h w =
     (if \<not> IsReadOnly hm then
        (case putATag hm h BLOCK_USE_TAG False w of
           (Some err, w') \<Rightarrow> ((False, False), w')
         | (None, w') \<Rightarrow> checkExistence h w')
      else checkExistence h w)"

text \<open>
  What a call does besides changing the world: it returns, it panics, or it ends the
  process through \<^verbatim>\<open>log.Fatal\<close>.
\<close>

datatype 'a outcome = Returned 'a | Panicked string | Fatal

text \<open>
  The retry loop of \<^verbatim>\<open>ReserveAndGet\<close> has no bound: it sleeps one minute and runs the
  whole reserve-and-check again for as long as a retry is asked for. \<open>None\<close> is the
  loop that never ends.
\<close>

partial_function (option) ReserveAndGet_loop ::
  "GoCloudUrlStorage \<Rightarrow> bytes \<Rightarrow> world \<Rightarrow> (bool \<times> world) option" where
  "ReserveAndGet_loop hm h w =
     (case reserveAndCheckExistence hm h w of
        ((ok, retry), w') \<Rightarrow>
          (if \<not> retry then Some (ok, w')
           else ReserveAndGet_loop hm h (sleep minute w')))"

definition ReserveAndGet ::
  "GoCloudUrlStorage \<Rightarrow> bytes \<Rightarrow> bool \<Rightarrow> world \<Rightarrow> ((bytes option \<times> bool) outcome \<times> world) option" where
  "ReserveAndGet hm h downloadData w =
     (if length h = 0 then Some (Returned (None, False), w)
      else
        (case ReserveAndGet_loop hm h w of
           None \<Rightarrow> None
         | Some (ok, w') \<Rightarrow>
             (if ok \<and> downloadData then
                (case bucket_ReadAll (getBlockStringKey h) w' of
                   (Inl err, w'') \<Rightarrow> Some (Panicked ''failed to read existing block data!'', w'')
                 | (Inr data, w'') \<Rightarrow> Some (Returned (Some data, ok), w''))
              else Some (Returned (None, ok), w'))))"

definition ReserveAndSet ::
  "GoCloudUrlStorage \<Rightarrow> bytes \<Rightarrow> bytes \<Rightarrow> world \<Rightarrow> unit outcome \<times> world" where
  "ReserveAndSet hm h data w =
     (if IsReadOnly hm then (Returned (), Warnf ''ReserveAndSet: read only'' w)
      else
        (case putATag hm h BLOCK_USE_TAG False w of
           (Some err, w') \<Rightarrow>
             (Panicked ''writing to block storage failed! Put reservation.'', w')
         | (None, w') \<Rightarrow>
             (case bucket_WriteAll (getBlockStringKey h) data w' of
                (Some err, w'') \<Rightarrow> (Panicked ''writing to block storage failed! Write.'', w'')
              | (None, w'') \<Rightarrow> (Returned (), w''))))"

definition DeleteReservation :: "GoCloudUrlStorage \<Rightarrow> bytes \<Rightarrow> world \<Rightarrow> unit outcome \<times> world" where
  "DeleteReservation hm h w =
     (case removeATag hm h BLOCK_USE_TAG w of
        (Some err, w') \<Rightarrow> (Fatal, w')
      | (None, w') \<Rightarrow> (Returned (), w'))"


section \<open>The state builder\<close>

text \<open>
  Modelled from the spec: the type \<^verbatim>\<open>HashBlockState\<close> and its predicates are not under
  src/. The spec (3) gives the four flags and
  \<^verbatim>\<open>IsAvailable = dataExists and not deletionPending\<close>,
  \<^verbatim>\<open>IsAvailableAndFree = IsAvailable and not reservedByMe and not reservedByOthers\<close>,
  \<^verbatim>\<open>IsAvailableAndReservedByMe = IsAvailable and reservedByMe\<close>.
\<close>

record HashBlockState =
  dataExists :: bool
  reservedByMe :: bool
  reservedByOthers :: bool
  deletionPending :: bool

definition emptyState :: HashBlockState where
  "emptyState =
     \<lparr>dataExists = False, reservedByMe = False, reservedByOthers = False,
      deletionPending = False\<rparr>"

definition IsAvailable :: "HashBlockState \<Rightarrow> bool" where
  "IsAvailable st = (dataExists st \<and> \<not> deletionPending st)"

definition IsAvailableAndFree :: "HashBlockState \<Rightarrow> bool" where
  "IsAvailableAndFree st = (IsAvailable st \<and> \<not> reservedByMe st \<and> \<not> reservedByOthers st)"

definition IsAvailableAndReservedByMe :: "HashBlockState \<Rightarrow> bool" where
  "IsAvailableAndReservedByMe st = (IsAvailable st \<and> reservedByMe st)"

type_synonym HashAndState = "bytes \<times> HashBlockState"

text \<open>The callback of the builder is the list of the records it was called with.\<close>

record HashBlockStorageMapBuilder =
  ownName :: string
  emitted :: "HashAndState list"
  currentHash :: string
  currentState :: HashBlockState

definition NewHashBlockStorageMapBuilder :: "string \<Rightarrow> HashBlockStorageMapBuilder" where
  "NewHashBlockStorageMapBuilder own =
     \<lparr>ownName = own, emitted = [], currentHash = [], currentState = emptyState\<rparr>"

definition completeIfNextHash ::
  "string \<Rightarrow> HashBlockStorageMapBuilder \<Rightarrow> bool \<times> HashBlockStorageMapBuilder" where
  "completeIfNextHash h b =
     (let complete = (h \<noteq> currentHash b) in
      if complete then
        (let b1 = (if dataExists (currentState b)
                   then b\<lparr>emitted := emitted b @
                          [(StringMapKeyToHashNoError (currentHash b), currentState b)]\<rparr>
                   else b)
         in (False, b1\<lparr>currentHash := h, currentState := emptyState\<rparr>))
      else (False, b))"

definition addData :: "string \<Rightarrow> HashBlockStorageMapBuilder \<Rightarrow> HashBlockStorageMapBuilder" where
  "addData h b =
     (case completeIfNextHash h b of
        (True, b') \<Rightarrow> b'
      | (False, b') \<Rightarrow> b'\<lparr>currentState := (currentState b')\<lparr>dataExists := True\<rparr>\<rparr>)"

definition addUse ::
  "string \<Rightarrow> string \<Rightarrow> HashBlockStorageMapBuilder \<Rightarrow> HashBlockStorageMapBuilder" where
  "addUse h who b =
     (case completeIfNextHash h b of
        (True, b') \<Rightarrow> b'
      | (False, b') \<Rightarrow>
          (if IsAvailable (currentState b') then
             (let isMe = (who = ownName b') in
              if isMe then b'\<lparr>currentState := (currentState b')\<lparr>reservedByMe := True\<rparr>\<rparr>
              else b'\<lparr>currentState := (currentState b')\<lparr>reservedByOthers := True\<rparr>\<rparr>)
           else b'))"

definition addDelete :: "string \<Rightarrow> HashBlockStorageMapBuilder \<Rightarrow> HashBlockStorageMapBuilder" where
  "addDelete h b =
     (case completeIfNextHash h b of
        (True, b') \<Rightarrow> b'
      | (False, b') \<Rightarrow> b'\<lparr>currentState := (currentState b')\<lparr>deletionPending := True\<rparr>\<rparr>)"

definition close :: "HashBlockStorageMapBuilder \<Rightarrow> HashBlockStorageMapBuilder" where
  "close b = snd (completeIfNextHash [] b)"

section \<open>Enumeration\<close>

text \<open>The body of the loop over the objects of a page in \<^verbatim>\<open>IterateBlocksInternal\<close>.\<close>

definition processObject ::
  "int \<Rightarrow> ListObject \<Rightarrow> HashBlockStorageMapBuilder \<Rightarrow> HashBlockStorageMapBuilder" where
  "processObject now obj b =
     (let folderPrefix = BlockDataSubFolder @ ''/'';
          hashString = fst (CutPrefix (Key obj) folderPrefix);
          elements = Split hashString CHR ''.''
      in if length elements \<le> 1 then addData hashString b
         else
           (let hashString = elements ! 0;
                tp = elements ! 1
            in if tp = BLOCK_USE_TAG \<and> length elements \<ge> 3
               then addUse hashString (elements ! 2) b
               else if tp = BLOCK_DELETE_TAG
               then (if now - ModTime obj < TIME_CONSTANT_BASE then addDelete hashString b
                     else b)
               else b))"

text \<open>
  The page loop of \<^verbatim>\<open>IterateBlocksInternal\<close>, with pages of 4096 keys. The context is
  either done for the whole pass or live for the whole pass (\<open>ctxDone\<close>).
\<close>

function IterateBlocksInternal_loop ::
  "bool \<Rightarrow> string \<Rightarrow> nat \<Rightarrow> HashBlockStorageMapBuilder \<Rightarrow> world \<Rightarrow>
   (error option \<times> HashBlockStorageMapBuilder) \<times> world" where
  "IterateBlocksInternal_loop ctxDone pfx pageToken b w =
     (if ctxDone then ((Some Canceled, b), w)
      else
        (case bucket_ListPage pageToken 4096 pfx w of
           (Inl err, w') \<Rightarrow> ((Some err, b), w')
         | (Inr (page, nextPageToken), w') \<Rightarrow>
             (let b' = fold (processObject (clock w')) page b in
              case nextPageToken of
                None \<Rightarrow> ((None, close b'), w')
              | Some tok \<Rightarrow> IterateBlocksInternal_loop ctxDone pfx tok b' w')))"
  by pat_completeness auto

termination
  by (relation "measure (\<lambda>(ctxDone, pfx, tok, b, w). length (listing pfx w) - tok)")
    (auto simp add: bucket_ListPage_def enter_call_def listing_def list_object_def Let_def
      split: list.splits bool.splits if_splits)

definition IterateBlocksInternal ::
  "bool \<Rightarrow> GoCloudUrlStorage \<Rightarrow> string \<Rightarrow> world \<Rightarrow>
   (error option \<times> HashAndState list) \<times> world" where
  "IterateBlocksInternal ctxDone hm pfx w =
     (let iterator = NewHashBlockStorageMapBuilder (myDeviceId hm);
          folderPrefix = BlockDataSubFolder @ ''/''
      in case IterateBlocksInternal_loop ctxDone (folderPrefix @ pfx) 0 iterator w of
           ((err, b), w') \<Rightarrow> ((err, emitted b), w'))"

text \<open>
  \<^verbatim>\<open>GetBlockHashState\<close>: the callback overwrites the result with every record of the pass,
  and the error of the pass is dropped.
\<close>

definition GetBlockHashState ::
  "bool \<Rightarrow> GoCloudUrlStorage \<Rightarrow> bytes \<Rightarrow> world \<Rightarrow> HashBlockState \<times> world" where
  "GetBlockHashState ctxDone hm h w =
     (case IterateBlocksInternal ctxDone hm (HashToStringMapKey h) w of
        ((err, recs), w') \<Rightarrow> (fold (\<lambda>d blockState. snd d) recs emptyState, w'))"

text \<open>
  \<^verbatim>\<open>IterateBlocks\<close>: one pass of \<^verbatim>\<open>IterateBlocksInternal\<close> for each first byte
  \<open>0 .. 255\<close>. The producer puts the channel of shard \<open>i\<close> into the channel of
  channels before that of shard \<open>i + 1\<close> and the consumer drains one channel to its end
  before it takes the next, so the callback sees the records of the shards in the order
  of the shards whatever the scheduling of the shard passes; the model runs the shards
  one after the other. A failed shard hands over the records it had and then its error,
  which ends the pass.
\<close>

fun IterateBlocks_shards ::
  "GoCloudUrlStorage \<Rightarrow> nat list \<Rightarrow> HashAndState list \<Rightarrow> world \<Rightarrow>
   (error option \<times> HashAndState list) \<times> world" where
  "IterateBlocks_shards hm [] acc w = ((None, acc), w)"
| "IterateBlocks_shards hm (i # shards) acc w =
     (let b_str = HashToStringMapKey [of_nat i] in
      case IterateBlocksInternal False hm b_str w of
        ((Some err, recs), w') \<Rightarrow> ((Some err, acc @ recs), w')
      | ((None, recs), w') \<Rightarrow> IterateBlocks_shards hm shards (acc @ recs) w')"

definition IterateBlocks ::
  "bool \<Rightarrow> GoCloudUrlStorage \<Rightarrow> world \<Rightarrow> (error option \<times> HashAndState list) \<times> world" where
  "IterateBlocks ctxDone hm w =
     (if ctxDone then ((None, []), w) else IterateBlocks_shards hm [0..<256] [] w)"

section \<open>Reclamation after a scan\<close>

text \<open>
  \<^verbatim>\<open>cleanupUnneededReservations\<close> calls two collaborators: the block store
  (\<^verbatim>\<open>DeleteReservation\<close>) and the checked-delete service (\<^verbatim>\<open>RequestCheckedDelete\<close>).
  The model returns the calls in the order they are made, and the world after them.
  \<^verbatim>\<open>DeleteReservation\<close> runs on the bucket: it deletes the \<^verbatim>\<open>used-by\<close> tag of the caller
  and ends the process through \<^verbatim>\<open>log.Fatal\<close> when that fails, so the loop stops there
  with the outcome \<open>Fatal\<close>. \<^verbatim>\<open>RequestCheckedDelete\<close> only enqueues the hash. The scan map
  is a Go map: the list of its entries in the order the \<^verbatim>\<open>range\<close> loop visits them. The
  snapshot is the list of the locally-held files, each with the hashes of its blocks,
  \<open>None\<close> for a file the snapshot cannot get.
\<close>

datatype reclaim_call = CallDeleteReservation bytes | CallRequestCheckedDelete bytes

definition usedBlockHashes :: "bytes list list \<Rightarrow> string set" where
  "usedBlockHashes files = set (map HashToStringMapKey (concat files))"

fun reclaim_loop ::
  "GoCloudUrlStorage \<Rightarrow> string set \<Rightarrow> (string \<times> HashBlockState) list \<Rightarrow>
   reclaim_call list \<Rightarrow> world \<Rightarrow> error option outcome \<times> reclaim_call list \<times> world" where
  "reclaim_loop hm used [] tr w = (Returned None, tr, w)"
| "reclaim_loop hm used ((h, st) # rest) tr w =
     (if IsAvailableAndFree st then
        (let byteHash = StringMapKeyToHashNoError h in
         reclaim_loop hm used rest (tr @ [CallRequestCheckedDelete byteHash]) w)
      else if IsAvailableAndReservedByMe st then
        (let stillNeeded = (h \<in> used) in
         if \<not> stillNeeded then
           (let byteHash = StringMapKeyToHashNoError h in
            case DeleteReservation hm byteHash w of
              (Returned u, w') \<Rightarrow>
                reclaim_loop hm used rest
                  (tr @ [CallDeleteReservation byteHash, CallRequestCheckedDelete byteHash]) w'
            | (Panicked msg, w') \<Rightarrow> (Panicked msg, tr @ [CallDeleteReservation byteHash], w')
            | (Fatal, w') \<Rightarrow> (Fatal, tr @ [CallDeleteReservation byteHash], w'))
         else reclaim_loop hm used rest tr w)
      else reclaim_loop hm used rest tr w)"

definition cleanupUnneededReservations ::
  "GoCloudUrlStorage \<Rightarrow> error + bytes list option list \<Rightarrow> (string \<times> HashBlockState) list \<Rightarrow>
   world \<Rightarrow> error option outcome \<times> reclaim_call list \<times> world" where
  "cleanupUnneededReservations hm snap checkMap w =
     (case snap of
        Inl err \<Rightarrow> (Returned (Some err), [], w)
      | Inr files \<Rightarrow>
          (if None \<in> set files
           then (Panicked ''cleanupUnneeded: inconsistent snapshot!'', [], w)
           else reclaim_loop hm (usedBlockHashes (map the files)) checkMap [] w))"

section \<open>The checked-delete service\<close>

text \<open>
  Modelled from the spec: the worker of \<^verbatim>\<open>AsyncCheckedDeleteService\<close> is not under src/.
  The spec (4.4): for each requested hash the worker re-queries the state of the block
  through the store and proceeds only if it is \<^verbatim>\<open>IsAvailableAndFree\<close>; it then writes
  its \<^verbatim>\<open>deletion-by\<close> tag, waits \<^verbatim>\<open>TIME_CONSTANT_BASE\<close>, re-queries the state and, if
  it is still \<^verbatim>\<open>IsAvailableAndFree\<close>, performs \<^verbatim>\<open>UncheckedDelete\<close> then
  \<^verbatim>\<open>DeAnnounceDelete\<close>; otherwise it drops the request. What the other participants do
  to the bucket during the wait is the function \<open>others\<close>.
\<close>

definition checkedDelete_announce ::
  "GoCloudUrlStorage \<Rightarrow> bytes \<Rightarrow> world \<Rightarrow> bool \<times> world" where
  "checkedDelete_announce hm h w =
     (case GetBlockHashState False hm h w of
        (st, w1) \<Rightarrow>
          (if IsAvailableAndFree st then (True, snd (AnnounceDelete hm h w1))
           else (False, w1)))"

definition checkedDelete_finish :: "GoCloudUrlStorage \<Rightarrow> bytes \<Rightarrow> world \<Rightarrow> world" where
  "checkedDelete_finish hm h w =
     (case GetBlockHashState False hm h w of
        (st, w1) \<Rightarrow>
          (if IsAvailableAndFree st
           then snd (DeAnnounceDelete hm h (snd (UncheckedDelete hm h w1)))
           else w1))"

definition checkedDelete ::
  "GoCloudUrlStorage \<Rightarrow> bytes \<Rightarrow> (world \<Rightarrow> world) \<Rightarrow> world \<Rightarrow> world" where
  "checkedDelete hm h others w =
     (case checkedDelete_announce hm h w of
        (False, w1) \<Rightarrow> w1
      | (True, w1) \<Rightarrow> checkedDelete_finish hm h (others (sleep TIME_CONSTANT_BASE w1)))"


section \<open>Concrete stores and buckets\<close>

definition store_A :: GoCloudUrlStorage where
  "store_A = \<lparr>url = ''mem://'', myDeviceId = ''A''\<rparr>"

definition store_B :: GoCloudUrlStorage where
  "store_B = \<lparr>url = ''mem://'', myDeviceId = ''B''\<rparr>"

definition store_ro :: GoCloudUrlStorage where
  "store_ro = \<lparr>url = ''mem://'', myDeviceId = []\<rparr>"

definition world_ab :: world where
  "world_ab =
     \<lparr>objects = [(''blocks/ab'', \<lparr>content = [1, 2, 3], modTime = 0\<rparr>)],
      clock = 0, faults = [], calls = [], warnings = []\<rparr>"

text \<open>Writing the count hint through \<^verbatim>\<open>SetMeta\<close>, then reading it.\<close>

definition hint_after :: "GoCloudUrlStorage \<Rightarrow> string \<Rightarrow> world \<Rightarrow> int \<times> world" where
  "hint_after hm s w =
     GetBlockHashesCountHint hm (SetMeta hm ''BlockCountHint'' (bytes_of_string s) w)"

text \<open>
  The keys of one block: its bare key, and every key that extends the bare key with the
  separator (its tag keys among them).
\<close>

definition belongs_to_block :: "bytes \<Rightarrow> string \<Rightarrow> bool" where
  "belongs_to_block h k =
     (k = getBlockStringKey h \<or> prefix (getBlockStringKey h @ ''.'') k)"

definition dot_tail :: "string \<Rightarrow> bool" where
  "dot_tail s = (s = [] \<or> hd s = CHR ''.'')"

text \<open>
  The calls that the reclamation makes for one entry of the scan map when
  \<^verbatim>\<open>DeleteReservation\<close> returns.
\<close>

definition entry_calls :: "string set \<Rightarrow> string \<times> HashBlockState \<Rightarrow> reclaim_call list" where
  "entry_calls used e =
     (case e of (h, st) \<Rightarrow>
        if IsAvailableAndFree st
        then [CallRequestCheckedDelete (StringMapKeyToHashNoError h)]
        else if IsAvailableAndReservedByMe st \<and> h \<notin> used
        then [CallDeleteReservation (StringMapKeyToHashNoError h),
              CallRequestCheckedDelete (StringMapKeyToHashNoError h)]
        else [])"

definition st_free :: HashBlockState where
  "st_free = emptyState\<lparr>dataExists := True\<rparr>"

definition st_mine :: HashBlockState where
  "st_mine = emptyState\<lparr>dataExists := True, reservedByMe := True\<rparr>"

definition st_others :: HashBlockState where
  "st_others = emptyState\<lparr>dataExists := True, reservedByOthers := True\<rparr>"

text \<open>
  A bucket in which participant \<open>A\<close> holds block \<open>02\<close>, the same bucket after \<open>A\<close> has
  deleted its reservation, and after a failed attempt to delete it.
\<close>

definition world_tags :: world where
  "world_tags =
     \<lparr>objects = [(''blocks/02'', \<lparr>content = [2], modTime = 0\<rparr>),
                 (''blocks/02.used-by.A'', \<lparr>content = [], modTime = 0\<rparr>)],
      clock = 0, faults = [], calls = [], warnings = []\<rparr>"

definition world_untagged :: world where
  "world_untagged =
     \<lparr>objects = [(''blocks/02'', \<lparr>content = [2], modTime = 0\<rparr>)],
      clock = 0, faults = [], calls = [CallDelete ''blocks/02.used-by.A''], warnings = []\<rparr>"

definition world_tags_failed :: world where
  "world_tags_failed = world_tags\<lparr>calls := [CallDelete ''blocks/02.used-by.A'']\<rparr>"

text \<open>Worlds and pages for the scenarios of the reserve-and-check.\<close>

definition world_empty_hash :: world where
  "world_empty_hash = snd (ReserveAndSet store_A [] [9] fresh_bucket)"

text \<open>An entry of a page that is a \<^verbatim>\<open>deletion-by\<close> tag of the block with key \<open>pfx\<close>.\<close>

definition is_delete_tag :: "string \<Rightarrow> ListObject \<Rightarrow> bool" where
  "is_delete_tag pfx e = prefix (pfx @ ''.'' @ BLOCK_DELETE_TAG @ ''.'') (Key e)"

definition tag0 :: object where "tag0 = \<lparr>content = [], modTime = 0\<rparr>"

definition world_announced :: world where
  "world_announced =
     \<lparr>objects = [(''blocks/ab'', \<lparr>content = [1, 2, 3], modTime = 0\<rparr>),
                 (''blocks/ab.deletion-by.A'', tag0)],
      clock = 0, faults = [], calls = [CallWriteAll ''blocks/ab.deletion-by.A''],
      warnings = []\<rparr>"

definition world_stale9 :: world where
  "world_stale9 =
     \<lparr>objects = [(''blocks/ab'', \<lparr>content = [1, 2, 3], modTime = 0\<rparr>),
                 (''blocks/ab.deletion-by.A1'', tag0), (''blocks/ab.deletion-by.A2'', tag0),
                 (''blocks/ab.deletion-by.A3'', tag0), (''blocks/ab.deletion-by.A4'', tag0),
                 (''blocks/ab.deletion-by.A5'', tag0), (''blocks/ab.deletion-by.A6'', tag0),
                 (''blocks/ab.deletion-by.A7'', tag0), (''blocks/ab.deletion-by.A8'', tag0),
                 (''blocks/ab.deletion-by.A9'', tag0)],
      clock = 2 * minute, faults = [], calls = [], warnings = []\<rparr>"

definition page9 :: "ListObject list" where
  "page9 =
     [\<lparr>Key = ''blocks/ab'', ModTime = 0\<rparr>,
      \<lparr>Key = ''blocks/ab.deletion-by.A1'', ModTime = 0\<rparr>,
      \<lparr>Key = ''blocks/ab.deletion-by.A2'', ModTime = 0\<rparr>,
      \<lparr>Key = ''blocks/ab.deletion-by.A3'', ModTime = 0\<rparr>,
      \<lparr>Key = ''blocks/ab.deletion-by.A4'', ModTime = 0\<rparr>,
      \<lparr>Key = ''blocks/ab.deletion-by.A5'', ModTime = 0\<rparr>,
      \<lparr>Key = ''blocks/ab.deletion-by.A6'', ModTime = 0\<rparr>,
      \<lparr>Key = ''blocks/ab.deletion-by.A7'', ModTime = 0\<rparr>,
      \<lparr>Key = ''blocks/ab.deletion-by.A8'', ModTime = 0\<rparr>,
      \<lparr>Key = ''blocks/ab.deletion-by.A9'', ModTime = 0\<rparr>]"

definition world_stale9_announced :: world where
  "world_stale9_announced =
     world_stale9\<lparr>objects := objects world_stale9 @
              [(''blocks/ab.deletion-by.B'', \<lparr>content = [], modTime = 2 * minute\<rparr>)],
            calls := [CallWriteAll ''blocks/ab.deletion-by.B'']\<rparr>"

text \<open>Invariants of the builder while it is fed the keys of one block \<open>X\<close>.\<close>

definition builder_quiet :: "string \<Rightarrow> HashBlockStorageMapBuilder \<Rightarrow> bool" where
  "builder_quiet X b =
     (emitted b = [] \<and>
      (currentHash b = X \<or> currentHash b = [] \<and> \<not> dataExists (currentState b)))"

definition builder_holds :: "string \<Rightarrow> HashBlockStorageMapBuilder \<Rightarrow> bool" where
  "builder_holds X b = (emitted b = [] \<and> currentHash b = X \<and> dataExists (currentState b))"

definition builder_taken :: "HashBlockStorageMapBuilder \<Rightarrow> bool" where
  "builder_taken b =
     (reservedByMe (currentState b) \<or> reservedByOthers (currentState b)
      \<or> deletionPending (currentState b))"

definition is_use_tag :: "string \<Rightarrow> ListObject \<Rightarrow> bool" where
  "is_use_tag pfx e = prefix (pfx @ ''.'' @ BLOCK_USE_TAG @ ''.'') (Key e)"

definition used_by_tag :: "bytes \<Rightarrow> string \<Rightarrow> string" where
  "used_by_tag h p = getBlockStringKey h @ ''.'' @ BLOCK_USE_TAG @ ''.'' @ p"

definition only_own_keys :: "bytes \<Rightarrow> world \<Rightarrow> bool" where
  "only_own_keys h w =
     list_all (\<lambda>k. prefix (getBlockStringKey h) k \<longrightarrow> belongs_to_block h k)
       (map fst (objects w))"

definition world_prefix :: world where
  "world_prefix =
     \<lparr>objects = [(''blocks/ab'', \<lparr>content = [1, 2, 3], modTime = 0\<rparr>),
                 (''blocks/ab.used-by.B'', \<lparr>content = [], modTime = 0\<rparr>),
                 (''blocks/abcd'', \<lparr>content = [4], modTime = 0\<rparr>)],
      clock = 0, faults = [], calls = [], warnings = []\<rparr>"

definition world_reserved :: world where
  "world_reserved =
     \<lparr>objects = [(''blocks/ab'', \<lparr>content = [1, 2, 3], modTime = 0\<rparr>),
                 (''blocks/ab.used-by.B'', \<lparr>content = [], modTime = 0\<rparr>)],
      clock = 0, faults = [], calls = [], warnings = []\<rparr>"

definition reserve_B :: "world \<Rightarrow> world" where
  "reserve_B w = snd (putATag store_B [0xab] BLOCK_USE_TAG False w)"

definition world_grace :: world where
  "world_grace =
     reserve_B (sleep TIME_CONSTANT_BASE (snd (checkedDelete_announce store_A [0xab] world_ab)))"

text \<open>A bucket with blocks in two shards, a tag and a metadata object.\<close>

definition world_three :: world where
  "world_three =
     \<lparr>objects = [(''blocks/abcd'', \<lparr>content = [4], modTime = 0\<rparr>),
                 (''blocks/ab.used-by.B'', \<lparr>content = [], modTime = 0\<rparr>),
                 (''blocks/01'', \<lparr>content = [7], modTime = 0\<rparr>),
                 (''blocks/ab'', \<lparr>content = [1, 2, 3], modTime = 0\<rparr>),
                 (''meta/BlockCountHint'', \<lparr>content = [51], modTime = 0\<rparr>)],
      clock = 0, faults = [], calls = [], warnings = []\<rparr>"

text \<open>The name of a listed key: what follows the folder prefix.\<close>

definition key_name :: "string \<Rightarrow> string" where
  "key_name k = fst (CutPrefix k ''blocks/'')"

text \<open>The names of the bare block keys of a listing, in its order.\<close>

definition bare_keys :: "ListObject list \<Rightarrow> string list" where
  "bare_keys xs = filter (\<lambda>s. CHR ''.'' \<notin> set s) (map (\<lambda>e. key_name (Key e)) xs)"

text \<open>A name that is the hex encoding of a hash.\<close>

definition is_hash_name :: "string \<Rightarrow> bool" where
  "is_hash_name s = (HashToStringMapKey (StringMapKeyToHashNoError s) = s)"

text \<open>
  The layout of the block folder: every key under \<^verbatim>\<open>blocks/\<close> whose name has no separator
  is the block key of a hash.
\<close>

definition bare_keys_are_hashes :: "world \<Rightarrow> bool" where
  "bare_keys_are_hashes w =
     list_all (\<lambda>k. prefix ''blocks/'' k \<and> CHR ''.'' \<notin> set (key_name k) \<longrightarrow>
                  is_hash_name (key_name k))
       (map fst (objects w))"

text \<open>The name whose record the builder holds back until the hash changes.\<close>

definition pending :: "HashBlockStorageMapBuilder \<Rightarrow> string list" where
  "pending b = (if dataExists (currentState b) then [currentHash b] else [])"

text \<open>
  The records emitted so far are those of the names \<open>ks\<close>, and these names followed by
  the pending one are a subsequence of the bare names \<open>bs\<close> seen so far.
\<close>

definition emit_inv :: "HashBlockStorageMapBuilder \<Rightarrow> string list \<Rightarrow> string list \<Rightarrow> bool" where
  "emit_inv b ks bs =
     (map fst (emitted b) = map StringMapKeyToHashNoError ks \<and> subseq (ks @ pending b) bs)"

section \<open>Basic facts\<close>

lemmas bucket_defs =
  enter_call_def bucket_Exists_def bucket_WriteAll_def bucket_Delete_def bucket_ReadAll_def

lemma string_of_bytes_of_string: "string_of_bytes (bytes_of_string s) = s"
proof -
  have "char_of (unat (of_nat (of_char c) :: byte)) = c" for c :: char
  proof -
    have "(of_char c :: nat) < 256" by simp
    then have "unat (of_nat (of_char c) :: byte) = of_char c"
      by (simp add: unat_of_nat)
    then show ?thesis by simp
  qed
  then show ?thesis
    by (simp add: string_of_bytes_def bytes_of_string_def map_idI)
qed

lemma key_ab: "getBlockStringKey [0xab] = ''blocks/ab''"
  by (simp add: getBlockStringKey_def BlockDataSubFolder_def HashToStringMapKey_def
      hex_byte_def hextable_def)

lemma store_A_writable: "\<not> IsReadOnly store_A"
  by (simp add: IsReadOnly_def store_A_def)

lemma store_ro_read_only: "IsReadOnly store_ro"
  by (simp add: IsReadOnly_def store_ro_def)

section \<open>The count hint\<close>

lemmas hint_defs =
  hint_after_def GetBlockHashesCountHint_def SetMeta_def GetMeta_def IsReadOnly_def
  getMetadataStringKey_def MetaDataSubFolder_def string_of_bytes_of_string
  Atoi_def digit_val_def fresh_bucket_def

lemma hint_lower_bound: "100 \<le> fst (GetBlockHashesCountHint hm w)"
  by (simp add: GetBlockHashesCountHint_def split: prod.splits bool.splits option.splits)

lemma hint_read_failure:
  "snd (fst (GetMeta hm ''BlockCountHint'' w)) = False \<Longrightarrow>
   fst (GetBlockHashesCountHint hm w) = 100"
  by (auto simp add: GetBlockHashesCountHint_def split: prod.splits bool.splits option.splits)

text \<open>
  C7, as the code has it. On a fresh bucket and through a writable handle, the hint reads
  100 after \<^verbatim>\<open>SetMeta("BlockCountHint","7")\<close> (7 is below the floor), 100 after the
  hint is overwritten with \<^verbatim>\<open>"3"\<close>, 100 after it is overwritten with \<^verbatim>\<open>"abc"\<close>, and a
  stored hint of at least 100 is returned as it is (\<^verbatim>\<open>"250"\<close> reads 250). Whenever the
  read of the meta object fails the call returns 100, and no call returns less than 100.
\<close>

theorem count_hint_floor:
  "(\<not> IsReadOnly hm \<longrightarrow>
      fst (hint_after hm ''7'' fresh_bucket) = 100
    \<and> fst (hint_after hm ''3'' (snd (hint_after hm ''7'' fresh_bucket))) = 100
    \<and> fst (hint_after hm ''abc''
           (snd (hint_after hm ''3'' (snd (hint_after hm ''7'' fresh_bucket))))) = 100
    \<and> fst (hint_after hm ''250'' fresh_bucket) = 250)
   \<and> (snd (fst (GetMeta hm ''BlockCountHint'' w)) = False \<longrightarrow>
        fst (GetBlockHashesCountHint hm w) = 100)
   \<and> 100 \<le> fst (GetBlockHashesCountHint hm w)"
proof -
  have a: "fst (hint_after hm ''7'' fresh_bucket) = 100" if "\<not> IsReadOnly hm"
    using that by (simp add: hint_defs bucket_defs)
  have b: "fst (hint_after hm ''3'' (snd (hint_after hm ''7'' fresh_bucket))) = 100"
    if "\<not> IsReadOnly hm"
    using that by (simp add: hint_defs bucket_defs)
  have c: "fst (hint_after hm ''abc''
           (snd (hint_after hm ''3'' (snd (hint_after hm ''7'' fresh_bucket))))) = 100"
    if "\<not> IsReadOnly hm"
    using that by (simp add: hint_defs bucket_defs)
  have d: "fst (hint_after hm ''250'' fresh_bucket) = 250" if "\<not> IsReadOnly hm"
    using that by (simp add: hint_defs bucket_defs)
  show ?thesis
    using a b c d hint_read_failure [of hm w] hint_lower_bound [of hm w] by blast
qed

theorem count_hint_floor_witness:
  "\<not> IsReadOnly store_A
   \<and> fst (hint_after store_A ''7'' fresh_bucket) = 100
   \<and> fst (hint_after store_A ''250'' fresh_bucket) = 250
   \<and> snd (fst (GetMeta store_A ''BlockCountHint'' fresh_bucket)) = False
   \<and> fst (GetBlockHashesCountHint store_A fresh_bucket) = 100"
proof -
  have f: "snd (fst (GetMeta store_A ''BlockCountHint'' fresh_bucket)) = False"
    by (simp add: GetMeta_def bucket_defs fresh_bucket_def)
  show ?thesis
    using store_A_writable f count_hint_floor [of store_A fresh_bucket] by simp
qed

text \<open>
  C7 as stated fails: after \<^verbatim>\<open>SetMeta("BlockCountHint","7")\<close> on a fresh bucket the call
  does not return 7.
\<close>

theorem count_hint_seven_counterexample:
  "fst (hint_after store_A ''7'' fresh_bucket) \<noteq> 7"
  by (simp add: hint_defs bucket_defs store_A_def)

section \<open>Read-only handles\<close>

text \<open>
  C8, as the code has it. On a read-only handle \<^verbatim>\<open>ReserveAndSet\<close>, \<^verbatim>\<open>SetMeta\<close> and
  \<^verbatim>\<open>DeleteMeta\<close> log a warning and return, and a warning changes neither the objects of
  the bucket nor the calls made to it; \<^verbatim>\<open>AnnounceDelete\<close>, \<^verbatim>\<open>DeAnnounceDelete\<close> and
  \<^verbatim>\<open>UncheckedDelete\<close> return a read-only error and leave the world as it is, without a
  warning and without a call to the bucket.
\<close>

theorem read_only_writes_dropped:
  "IsReadOnly hm \<Longrightarrow>
     ReserveAndSet hm h data w = (Returned (), Warnf ''ReserveAndSet: read only'' w)
   \<and> SetMeta hm name data w = Warnf ''SetMeta: read only'' w
   \<and> DeleteMeta hm name w = Warnf ''SetMeta: read only'' w
   \<and> objects (Warnf msg w) = objects w \<and> calls (Warnf msg w) = calls w
   \<and> AnnounceDelete hm h w = (Some (ReadOnly ''putATag: read only''), w)
   \<and> DeAnnounceDelete hm h w = (Some (ReadOnly ''removeATag: read only''), w)
   \<and> UncheckedDelete hm h w = (Some (ReadOnly ''UncheckedDelete: read only''), w)"
  by (simp add: ReserveAndSet_def SetMeta_def DeleteMeta_def Warnf_def AnnounceDelete_def
      DeAnnounceDelete_def UncheckedDelete_def putATag_def removeATag_def)

theorem read_only_writes_dropped_witness:
  "IsReadOnly store_ro
   \<and> ReserveAndSet store_ro [0xab] [1] fresh_bucket =
       (Returned (), Warnf ''ReserveAndSet: read only'' fresh_bucket)
   \<and> AnnounceDelete store_ro [0xab] fresh_bucket =
       (Some (ReadOnly ''putATag: read only''), fresh_bucket)"
  using store_ro_read_only
    read_only_writes_dropped [OF store_ro_read_only, of "[0xab]" "[1]" fresh_bucket]
  by simp

text \<open>
  C8 as stated fails: on a read-only handle \<^verbatim>\<open>DeleteReservation\<close> ends the process
  through \<^verbatim>\<open>log.Fatal\<close>, and \<^verbatim>\<open>AnnounceDelete\<close> returns an error without logging a
  warning.
\<close>

theorem read_only_counterexample:
  "fst (DeleteReservation store_ro [0xab] fresh_bucket) = Fatal
   \<and> AnnounceDelete store_ro [0xab] fresh_bucket =
       (Some (ReadOnly ''putATag: read only''), fresh_bucket)
   \<and> warnings fresh_bucket = []"
  by (simp add: DeleteReservation_def removeATag_def IsReadOnly_def store_ro_def
      AnnounceDelete_def putATag_def fresh_bucket_def)

section \<open>Reserving and reading\<close>

lemma loop_done:
  "reserveAndCheckExistence hm h w = ((ok, False), w') \<Longrightarrow>
   ReserveAndGet_loop hm h w = Some (ok, w')"
  by (subst ReserveAndGet_loop.simps) simp

lemma loop_retry:
  "reserveAndCheckExistence hm h w = ((ok, True), w') \<Longrightarrow>
   ReserveAndGet_loop hm h w = ReserveAndGet_loop hm h (sleep minute w')"
  by (subst ReserveAndGet_loop.simps) simp

text \<open>
  C10. For the empty hash \<^verbatim>\<open>ReserveAndGet\<close> returns \<^verbatim>\<open>(nil, false)\<close> at once, for either
  value of \<^verbatim>\<open>downloadData\<close> and for any handle, and the world is the one it started in:
  no object written, no call made to the bucket.
\<close>

theorem ReserveAndGet_empty_hash:
  "ReserveAndGet hm [] downloadData w = Some (Returned (None, False), w)"
  by (simp add: ReserveAndGet_def)

text \<open>
  C9, as the code has it. For a non-empty hash: when the put of the \<^verbatim>\<open>used-by\<close> tag
  fails on a writable handle, \<^verbatim>\<open>ReserveAndGet\<close> returns \<^verbatim>\<open>found=false\<close> in the world that
  the failed put left (nothing is tried again); when the listing fails it returns
  \<^verbatim>\<open>found=false\<close> in the world that the failed listing left; when the block is found and
  the download of its body fails, the call panics.
\<close>

theorem ReserveAndGet_transient_failures:
  "h \<noteq> [] \<Longrightarrow>
     (\<not> IsReadOnly hm \<and> putATag hm h BLOCK_USE_TAG False w = (Some err, w1) \<longrightarrow>
        ReserveAndGet hm h downloadData w = Some (Returned (None, False), w1))
   \<and> ((if IsReadOnly hm then w1 = w else putATag hm h BLOCK_USE_TAG False w = (None, w1))
        \<and> bucket_ListPage 0 10 (getBlockStringKey h) w1 = (Inl err, w2) \<longrightarrow>
        ReserveAndGet hm h downloadData w = Some (Returned (None, False), w2))
   \<and> (ReserveAndGet_loop hm h w = Some (True, w1)
        \<and> bucket_ReadAll (getBlockStringKey h) w1 = (Inl err, w2) \<longrightarrow>
        ReserveAndGet hm h True w =
          Some (Panicked ''failed to read existing block data!'', w2))"
proof (intro conjI impI)
  assume h: "h \<noteq> []"
  {
    assume "\<not> IsReadOnly hm \<and> putATag hm h BLOCK_USE_TAG False w = (Some err, w1)"
    then have "reserveAndCheckExistence hm h w = ((False, False), w1)"
      by (simp add: reserveAndCheckExistence_def)
    then have "ReserveAndGet_loop hm h w = Some (False, w1)"
      by (rule loop_done)
    with h show "ReserveAndGet hm h downloadData w = Some (Returned (None, False), w1)"
      by (simp add: ReserveAndGet_def)
  }
  {
    assume a: "(if IsReadOnly hm then w1 = w
                else putATag hm h BLOCK_USE_TAG False w = (None, w1))
        \<and> bucket_ListPage 0 10 (getBlockStringKey h) w1 = (Inl err, w2)"
    then have "checkExistence h w1 = ((False, False), w2)"
      by (simp add: checkExistence_def)
    with a have "reserveAndCheckExistence hm h w = ((False, False), w2)"
      by (auto simp add: reserveAndCheckExistence_def split: if_splits)
    then have "ReserveAndGet_loop hm h w = Some (False, w2)"
      by (rule loop_done)
    with h show "ReserveAndGet hm h downloadData w = Some (Returned (None, False), w2)"
      by (simp add: ReserveAndGet_def)
  }
  {
    assume "ReserveAndGet_loop hm h w = Some (True, w1)
        \<and> bucket_ReadAll (getBlockStringKey h) w1 = (Inl err, w2)"
    with h show "ReserveAndGet hm h True w =
          Some (Panicked ''failed to read existing block data!'', w2)"
      by (simp add: ReserveAndGet_def)
  }
qed

lemma put_fails:
  "putATag store_A [0xab] BLOCK_USE_TAG False (fresh_bucket\<lparr>faults := [True]\<rparr>) =
     (Some TransientIO, fresh_bucket\<lparr>calls := [CallExists ''blocks/ab.used-by.A'']\<rparr>)"
  by (simp add: putATag_def IsReadOnly_def store_A_def getATag_def key_ab BLOCK_USE_TAG_def
      bucket_defs fresh_bucket_def)

lemma list_fails:
  "bucket_ListPage 0 10 (getBlockStringKey [0xab]) (fresh_bucket\<lparr>faults := [True]\<rparr>) =
     (Inl TransientIO, fresh_bucket\<lparr>calls := [CallListPage ''blocks/ab'' 0 10]\<rparr>)"
  by (simp add: key_ab bucket_ListPage_def enter_call_def fresh_bucket_def)

lemma check_ab:
  "reserveAndCheckExistence store_ro [0xab] (world_ab\<lparr>faults := [False, True]\<rparr>) =
     ((True, False), world_ab\<lparr>faults := [True], calls := [CallListPage ''blocks/ab'' 0 10]\<rparr>)"
  by (simp add: reserveAndCheckExistence_def IsReadOnly_def store_ro_def checkExistence_def
      key_ab bucket_ListPage_def enter_call_def listing_def list_object_def world_ab_def
      scan_page_def scan_entry_def CutPrefix_def Let_def)

lemma loop_ab:
  "ReserveAndGet_loop store_ro [0xab] (world_ab\<lparr>faults := [False, True]\<rparr>) =
     Some (True, world_ab\<lparr>faults := [True], calls := [CallListPage ''blocks/ab'' 0 10]\<rparr>)"
  using check_ab by (rule loop_done)

lemma read_fails:
  "bucket_ReadAll (getBlockStringKey [0xab])
     (world_ab\<lparr>faults := [True], calls := [CallListPage ''blocks/ab'' 0 10]\<rparr>) =
     (Inl TransientIO,
      world_ab\<lparr>calls := [CallListPage ''blocks/ab'' 0 10, CallReadAll ''blocks/ab'']\<rparr>)"
  by (simp add: key_ab bucket_defs world_ab_def)

theorem ReserveAndGet_transient_failures_witness:
  "[0xab :: byte] \<noteq> []
   \<and> \<not> IsReadOnly store_A
   \<and> putATag store_A [0xab] BLOCK_USE_TAG False (fresh_bucket\<lparr>faults := [True]\<rparr>) =
       (Some TransientIO, fresh_bucket\<lparr>calls := [CallExists ''blocks/ab.used-by.A'']\<rparr>)
   \<and> ReserveAndGet store_A [0xab] True (fresh_bucket\<lparr>faults := [True]\<rparr>) =
       Some (Returned (None, False),
             fresh_bucket\<lparr>calls := [CallExists ''blocks/ab.used-by.A'']\<rparr>)
   \<and> IsReadOnly store_ro
   \<and> bucket_ListPage 0 10 (getBlockStringKey [0xab]) (fresh_bucket\<lparr>faults := [True]\<rparr>) =
       (Inl TransientIO, fresh_bucket\<lparr>calls := [CallListPage ''blocks/ab'' 0 10]\<rparr>)
   \<and> ReserveAndGet store_ro [0xab] True (fresh_bucket\<lparr>faults := [True]\<rparr>) =
       Some (Returned (None, False),
             fresh_bucket\<lparr>calls := [CallListPage ''blocks/ab'' 0 10]\<rparr>)
   \<and> ReserveAndGet_loop store_ro [0xab] (world_ab\<lparr>faults := [False, True]\<rparr>) =
       Some (True, world_ab\<lparr>faults := [True], calls := [CallListPage ''blocks/ab'' 0 10]\<rparr>)
   \<and> ReserveAndGet store_ro [0xab] True (world_ab\<lparr>faults := [False, True]\<rparr>) =
       Some (Panicked ''failed to read existing block data!'',
             world_ab\<lparr>calls := [CallListPage ''blocks/ab'' 0 10, CallReadAll ''blocks/ab'']\<rparr>)"
proof -
  have ne: "[0xab :: byte] \<noteq> []" by simp
  have 1: "ReserveAndGet store_A [0xab] True (fresh_bucket\<lparr>faults := [True]\<rparr>) =
       Some (Returned (None, False),
             fresh_bucket\<lparr>calls := [CallExists ''blocks/ab.used-by.A'']\<rparr>)"
    using ReserveAndGet_transient_failures [OF ne, of store_A
        "fresh_bucket\<lparr>faults := [True]\<rparr>" TransientIO
        "fresh_bucket\<lparr>calls := [CallExists ''blocks/ab.used-by.A'']\<rparr>" True]
      store_A_writable put_fails by blast
  have 2: "ReserveAndGet store_ro [0xab] True (fresh_bucket\<lparr>faults := [True]\<rparr>) =
       Some (Returned (None, False),
             fresh_bucket\<lparr>calls := [CallListPage ''blocks/ab'' 0 10]\<rparr>)"
    using ReserveAndGet_transient_failures [OF ne, of store_ro
        "fresh_bucket\<lparr>faults := [True]\<rparr>" TransientIO
        "fresh_bucket\<lparr>faults := [True]\<rparr>" True
        "fresh_bucket\<lparr>calls := [CallListPage ''blocks/ab'' 0 10]\<rparr>"]
      store_ro_read_only list_fails by simp
  have 3: "ReserveAndGet store_ro [0xab] True (world_ab\<lparr>faults := [False, True]\<rparr>) =
       Some (Panicked ''failed to read existing block data!'',
             world_ab\<lparr>calls := [CallListPage ''blocks/ab'' 0 10, CallReadAll ''blocks/ab'']\<rparr>)"
    using ReserveAndGet_transient_failures [OF ne, of store_ro
        "world_ab\<lparr>faults := [False, True]\<rparr>" TransientIO
        "world_ab\<lparr>faults := [True], calls := [CallListPage ''blocks/ab'' 0 10]\<rparr>" True
        "world_ab\<lparr>calls := [CallListPage ''blocks/ab'' 0 10, CallReadAll ''blocks/ab'']\<rparr>"]
      loop_ab read_fails by simp
  show ?thesis
    using ne store_A_writable store_ro_read_only put_fails list_fails loop_ab 1 2 3 by simp
qed

text \<open>
  C9 as stated fails: with the block present, a listing that succeeds and a download that
  fails, \<^verbatim>\<open>ReserveAndGet(hash, true)\<close> does not return \<^verbatim>\<open>found=false\<close>: it panics.
\<close>

theorem ReserveAndGet_download_failure_counterexample:
  "ReserveAndGet store_ro [0xab] True (world_ab\<lparr>faults := [False, True]\<rparr>) =
     Some (Panicked ''failed to read existing block data!'',
           world_ab\<lparr>calls := [CallListPage ''blocks/ab'' 0 10, CallReadAll ''blocks/ab'']\<rparr>)"
  using loop_ab read_fails by (simp add: ReserveAndGet_def)


section \<open>The hex codec and the order of keys\<close>

lemma hextable_nth: "\<forall>d \<in> set [0..<16]. hex_val (hextable ! d) = Some d \<and> CHR ''.'' < hextable ! d"
  by code_simp

lemma hextable_mono: "\<forall>d \<in> set [0..<16]. \<forall>e \<in> set [0..<16]. d < e \<longrightarrow> hextable ! d < hextable ! e"
  by code_simp

lemma hex_val_hextable: "d < 16 \<Longrightarrow> hex_val (hextable ! d) = Some d"
  using hextable_nth by simp

lemma dot_less_hextable: "d < 16 \<Longrightarrow> CHR ''.'' < hextable ! d"
  using hextable_nth by simp

lemma hextable_less: "d < e \<Longrightarrow> e < 16 \<Longrightarrow> hextable ! d < hextable ! e"
  using hextable_mono by simp

lemma unat_byte_div: "unat (b :: byte) div 16 < 16"
proof -
  have "unat b < 256" using unsigned_less [of b, where ?'a = nat] by simp
  then show ?thesis by simp
qed

lemma decode_encode: "StringMapKeyToHashNoError (HashToStringMapKey h) = h"
proof (induction h)
  case Nil
  show ?case by (simp add: HashToStringMapKey_def)
next
  case (Cons b h)
  have "HashToStringMapKey (b # h) =
          hextable ! (unat b div 16) # hextable ! (unat b mod 16) # HashToStringMapKey h"
    by (simp add: HashToStringMapKey_def hex_byte_def)
  moreover have "(of_nat (unat b div 16 * 16 + unat b mod 16) :: byte) = b"
    by simp
  ultimately show ?case
    using Cons.IH by (simp add: hex_val_hextable unat_byte_div)
qed

lemma hex_inj: "HashToStringMapKey h = HashToStringMapKey h' \<Longrightarrow> h = h'"
  by (metis decode_encode)

lemma hex_chars: "c \<in> set (HashToStringMapKey h) \<Longrightarrow> CHR ''.'' < c"
  by (induction h) (auto simp add: HashToStringMapKey_def hex_byte_def dot_less_hextable unat_byte_div)

lemma sep_less:
  "\<forall>c \<in> set a. CHR ''.'' < c \<Longrightarrow> \<forall>c \<in> set b. CHR ''.'' < c \<Longrightarrow> a \<noteq> b \<Longrightarrow>
   dot_tail s \<Longrightarrow> dot_tail t \<Longrightarrow> (a @ s < b @ t) = (a < b)"
proof (induction a arbitrary: b)
  case Nil
  then obtain c b' where b: "b = c # b'" by (cases b) auto
  with Nil have "CHR ''.'' < c" by simp
  with b Nil.prems(4) show ?case
    by (cases s) (auto simp add: dot_tail_def)
next
  case (Cons x a)
  show ?case
  proof (cases b)
    case Nil
    from Cons.prems(1) have "CHR ''.'' < x" by simp
    with Nil Cons.prems(5) show ?thesis
      by (cases t) (auto simp add: dot_tail_def)
  next
    case (Cons y b')
    with Cons.prems Cons.IH [of b'] show ?thesis
      by auto
  qed
qed

lemma append_less_append: "(p @ a < p @ b) = (a < (b :: string))"
  by (induction p) auto

lemma belongs_shape:
  "belongs_to_block h k \<Longrightarrow>
   \<exists>s. dot_tail s \<and> k = ''blocks/'' @ HashToStringMapKey h @ s"
  by (auto simp add: belongs_to_block_def getBlockStringKey_def BlockDataSubFolder_def
      dot_tail_def prefix_def)

lemma block_sep:
  assumes "h \<noteq> h'" "belongs_to_block h k" "belongs_to_block h' k'"
  shows "(k < k') = (HashToStringMapKey h < HashToStringMapKey h')"
proof -
  from assms(2) obtain s where s: "dot_tail s" "k = ''blocks/'' @ HashToStringMapKey h @ s"
    using belongs_shape by blast
  from assms(3) obtain t where t: "dot_tail t" "k' = ''blocks/'' @ HashToStringMapKey h' @ t"
    using belongs_shape by blast
  have ne: "HashToStringMapKey h \<noteq> HashToStringMapKey h'"
    using assms(1) hex_inj by blast
  have "(HashToStringMapKey h @ s < HashToStringMapKey h' @ t) =
        (HashToStringMapKey h < HashToStringMapKey h')"
    using sep_less [of "HashToStringMapKey h" "HashToStringMapKey h'" s t] hex_chars ne s(1) t(1)
    by blast
  then show ?thesis
    using append_less_append [of "''blocks/''"] s(2) t(2) by simp
qed

text \<open>
  C6, as the code has it. The separator \<^verbatim>\<open>.\<close> sorts before every hex digit (not after).
  The bare key of a block and its tag keys belong to the block; the bare key sorts before
  each of its tag keys and is the least key of the block; and for two distinct hashes
  every key of the one block compares in the same way with every key of the other, so
  that no key of another block lies between two keys of one block: in a byte-lexicographic
  listing the keys of a block are contiguous, the bare key first.
\<close>

theorem block_keys_contiguous:
  "(d < 16 \<longrightarrow> CHR ''.'' < hextable ! d)
   \<and> (c \<in> set (HashToStringMapKey h) \<longrightarrow> CHR ''.'' < c)
   \<and> belongs_to_block h (getBlockStringKey h)
   \<and> belongs_to_block h (getATag hm h tag)
   \<and> getBlockStringKey h < getATag hm h tag
   \<and> (belongs_to_block h k \<longrightarrow> getBlockStringKey h \<le> k)
   \<and> (h \<noteq> h' \<and> belongs_to_block h k1 \<and> belongs_to_block h k2 \<and> belongs_to_block h' k'
        \<longrightarrow> (k1 < k') = (k2 < k') \<and> \<not> (k1 < k' \<and> k' < k2))"
proof -
  have lt: "(a :: string) < a @ x # r" for a x r
    by (induction a) auto
  have 1: "getBlockStringKey h < getATag hm h tag"
    using lt by (simp add: getATag_def)
  have 2: "getBlockStringKey h \<le> k" if "belongs_to_block h k"
    using that lt [of "getBlockStringKey h" "CHR ''.''"]
    by (auto simp add: belongs_to_block_def prefix_def less_imp_le)
  have 3: "(k1 < k') = (k2 < k') \<and> \<not> (k1 < k' \<and> k' < k2)"
    if "h \<noteq> h'" "belongs_to_block h k1" "belongs_to_block h k2" "belongs_to_block h' k'"
  proof -
    have a: "(k1 < k') = (HashToStringMapKey h < HashToStringMapKey h')"
      using that by (simp add: block_sep)
    have b: "(k2 < k') = (HashToStringMapKey h < HashToStringMapKey h')"
      using that by (simp add: block_sep)
    from a b show ?thesis
      using order_less_asym by blast
  qed
  show ?thesis
    using 1 2 3 dot_less_hextable hex_chars
    by (simp add: belongs_to_block_def getATag_def)
qed

theorem block_keys_contiguous_witness:
  "(12 :: nat) < 16 \<and> CHR ''.'' < hextable ! 12
   \<and> CHR ''b'' \<in> set (HashToStringMapKey [0xab]) \<and> CHR ''.'' < CHR ''b''
   \<and> belongs_to_block [0xab] ''blocks/ab.used-by.A''
   \<and> ''blocks/ab'' \<le> ''blocks/ab.used-by.A''
   \<and> [0xab] \<noteq> [0xab, 0xcd :: byte]
   \<and> belongs_to_block [0xab] ''blocks/ab''
   \<and> belongs_to_block [0xab, 0xcd] ''blocks/abcd''
   \<and> (''blocks/ab'' < ''blocks/abcd'') = (''blocks/ab.used-by.A'' < ''blocks/abcd'')
   \<and> \<not> (''blocks/ab'' < ''blocks/abcd'' \<and> ''blocks/abcd'' < ''blocks/ab.used-by.A'')"
proof -
  have k: "getBlockStringKey [0xab] = ''blocks/ab''"
    "getBlockStringKey [0xab, 0xcd] = ''blocks/abcd''"
    "HashToStringMapKey [0xab] = ''ab''"
    by (simp_all add: getBlockStringKey_def BlockDataSubFolder_def HashToStringMapKey_def
        hex_byte_def hextable_def)
  have b: "belongs_to_block [0xab] ''blocks/ab.used-by.A''"
    "belongs_to_block [0xab] ''blocks/ab''"
    "belongs_to_block [0xab, 0xcd] ''blocks/abcd''"
    by (simp_all add: belongs_to_block_def k)
  have ne: "[0xab] \<noteq> [0xab, 0xcd :: byte]" by simp
  show ?thesis
    using block_keys_contiguous [of 12 "CHR ''b''" "[0xab]" store_A BLOCK_USE_TAG
        "''blocks/ab.used-by.A''" "[0xab, 0xcd]" "''blocks/ab''" "''blocks/ab.used-by.A''"
        "''blocks/abcd''"] b ne
    by (simp add: k)
qed

text \<open>
  C6 as stated fails: the separator does not sort after the hex digit \<^verbatim>\<open>0\<close>; it sorts
  before it.
\<close>

theorem dot_after_hex_digit_counterexample:
  "\<not> hextable ! 0 < CHR ''.'' \<and> CHR ''.'' < hextable ! 0"
  by (simp add: hextable_def)

section \<open>Reclamation\<close>

lemma reclaim_loop_step:
  "reclaim_loop hm used ((h, st) # rest) tr w =
     (if IsAvailableAndFree st \<or> IsAvailableAndReservedByMe st \<and> h \<notin> used
      then (if IsAvailableAndFree st
            then reclaim_loop hm used rest (tr @ entry_calls used (h, st)) w
            else (case DeleteReservation hm (StringMapKeyToHashNoError h) w of
                    (Returned u, w') \<Rightarrow>
                      reclaim_loop hm used rest (tr @ entry_calls used (h, st)) w'
                  | (Panicked msg, w') \<Rightarrow>
                      (Panicked msg,
                       tr @ [CallDeleteReservation (StringMapKeyToHashNoError h)], w')
                  | (Fatal, w') \<Rightarrow>
                      (Fatal, tr @ [CallDeleteReservation (StringMapKeyToHashNoError h)], w')))
      else reclaim_loop hm used rest tr w)"
  by (auto simp add: entry_calls_def Let_def split: prod.splits outcome.splits)

lemma reclaim_loop_returns:
  assumes "reclaim_loop hm used ((h, st) # rest) tr w = (Returned None, t1, w1)"
  shows "\<exists>w'. reclaim_loop hm used rest (tr @ entry_calls used (h, st)) w' =
            (Returned None, t1, w1)
          \<and> (\<forall>more. reclaim_loop hm used ((h, st) # more) tr w =
                 reclaim_loop hm used more (tr @ entry_calls used (h, st)) w')"
proof (cases "IsAvailableAndFree st \<or> IsAvailableAndReservedByMe st \<and> h \<notin> used")
  case False
  then have e: "entry_calls used (h, st) = []"
    by (auto simp add: entry_calls_def)
  have "\<forall>more. reclaim_loop hm used ((h, st) # more) tr w = reclaim_loop hm used more tr w"
    using False by (simp only: reclaim_loop_step if_False) simp
  with assms e show ?thesis
    by (intro exI [of _ w]) simp
next
  case True
  show ?thesis
  proof (cases "IsAvailableAndFree st")
    case f: True
    have "\<forall>more. reclaim_loop hm used ((h, st) # more) tr w =
        reclaim_loop hm used more (tr @ entry_calls used (h, st)) w"
      using f by (simp only: reclaim_loop_step) simp
    with assms show ?thesis
      by (intro exI [of _ w]) simp
  next
    case nf: False
    obtain oc w2 where d: "DeleteReservation hm (StringMapKeyToHashNoError h) w = (oc, w2)"
      by (metis surj_pair)
    have step: "reclaim_loop hm used ((h, st) # more) tr w =
        (case oc of
           Returned u \<Rightarrow> reclaim_loop hm used more (tr @ entry_calls used (h, st)) w2
         | Panicked msg \<Rightarrow>
             (Panicked msg, tr @ [CallDeleteReservation (StringMapKeyToHashNoError h)], w2)
         | Fatal \<Rightarrow> (Fatal, tr @ [CallDeleteReservation (StringMapKeyToHashNoError h)], w2))"
      for more
      using True nf d by (simp only: reclaim_loop_step) (simp split: outcome.splits)
    show ?thesis
    proof (cases oc)
      case (Returned u)
      then have "\<forall>more. reclaim_loop hm used ((h, st) # more) tr w =
          reclaim_loop hm used more (tr @ entry_calls used (h, st)) w2"
        using step by simp
      with assms show ?thesis
        by (intro exI [of _ w2]) simp
    next
      case (Panicked m)
      with assms step [of rest] show ?thesis by simp
    next
      case Fatal
      with assms step [of rest] show ?thesis by simp
    qed
  qed
qed

lemma reclaim_loop_append:
  "reclaim_loop hm used pre tr w = (Returned None, t1, w1) \<Longrightarrow>
   reclaim_loop hm used (pre @ rest) tr w = reclaim_loop hm used rest t1 w1"
proof (induction pre arbitrary: tr w)
  case Nil
  then show ?case by simp
next
  case (Cons e pre)
  obtain h st where e: "e = (h, st)" by (cases e)
  from Cons.prems obtain w' where
    r: "reclaim_loop hm used pre (tr @ entry_calls used (h, st)) w' = (Returned None, t1, w1)"
    and s: "\<forall>more. reclaim_loop hm used ((h, st) # more) tr w =
                 reclaim_loop hm used more (tr @ entry_calls used (h, st)) w'"
    using reclaim_loop_returns [of hm used h st pre tr w t1 w1] e by blast
  have "reclaim_loop hm used ((e # pre) @ rest) tr w =
      reclaim_loop hm used (pre @ rest) (tr @ entry_calls used (h, st)) w'"
    using s e by simp
  also have "\<dots> = reclaim_loop hm used rest t1 w1"
    using r by (rule Cons.IH)
  finally show ?case .
qed

lemma reclaim_loop_trace:
  "reclaim_loop hm used xs tr w = (Returned None, tr', w') \<Longrightarrow>
   tr' = tr @ concat (map (entry_calls used) xs)"
proof (induction xs arbitrary: tr w)
  case Nil
  then show ?case by simp
next
  case (Cons e xs)
  obtain h st where e: "e = (h, st)" by (cases e)
  from Cons.prems obtain w1 where
    r: "reclaim_loop hm used xs (tr @ entry_calls used (h, st)) w1 = (Returned None, tr', w')"
    using reclaim_loop_returns [of hm used h st xs tr w tr' w'] e by blast
  have "tr' = (tr @ entry_calls used (h, st)) @ concat (map (entry_calls used) xs)"
    using r by (rule Cons.IH)
  then show ?case
    using e by simp
qed


lemma entry_calls_hashes:
  "c \<in> set (entry_calls used (k, st)) \<Longrightarrow>
   c = CallRequestCheckedDelete (StringMapKeyToHashNoError k)
   \<or> c = CallDeleteReservation (StringMapKeyToHashNoError k)"
  by (auto simp add: entry_calls_def split: if_splits)

lemma DeleteReservation_world_tags:
  "DeleteReservation store_A [2] world_tags = (Returned (), world_untagged)"
  "DeleteReservation store_A [2] (world_tags\<lparr>faults := [True]\<rparr>) = (Fatal, world_tags_failed)"
  by (simp_all add: DeleteReservation_def removeATag_def IsReadOnly_def store_A_def
      bucket_Delete_def enter_call_def world_tags_def world_untagged_def world_tags_failed_def
      getBlockStringKey_def HashToStringMapKey_def hex_byte_def hextable_def BLOCK_USE_TAG_def
      BlockDataSubFolder_def)

lemma state_facts:
  "\<not> IsAvailableAndFree st_mine" "IsAvailableAndReservedByMe st_mine"
  "IsAvailableAndFree st_free" "\<not> IsAvailableAndFree st_others"
  "\<not> IsAvailableAndReservedByMe st_others"
  by (simp_all add: st_mine_def st_free_def st_others_def emptyState_def IsAvailableAndFree_def
      IsAvailableAndReservedByMe_def IsAvailable_def)

lemma used_three:
  "usedBlockHashes [[[3 :: byte]]] = {''03''}"
  by (simp add: usedBlockHashes_def HashToStringMapKey_def hex_byte_def hextable_def)

lemma dec_keys:
  "StringMapKeyToHashNoError ''01'' = [1]" "StringMapKeyToHashNoError ''02'' = [2]"
  "StringMapKeyToHashNoError ''05'' = [5]"
  by (simp_all add: hex_val_def)

lemma hex_keys_four:
  "\<forall>k \<in> fst ` set ([(''01'', st_free)] @ (''02'', st_mine) #
        [(''03'', st_mine), (''04'', st_others)]). \<exists>h. k = HashToStringMapKey h"
proof -
  have "''01'' = HashToStringMapKey [1]" "''02'' = HashToStringMapKey [2]"
    "''03'' = HashToStringMapKey [3]" "''04'' = HashToStringMapKey [4]"
    by (simp_all add: HashToStringMapKey_def hex_byte_def hextable_def)
  then show ?thesis by auto
qed

text \<open>
  C2, as the code has it. With a consistent snapshot, let the reclamation return on the entries
  before \<^verbatim>\<open>(H, state)\<close>. On the whole map it then goes on as follows. When the state is
  \<^verbatim>\<open>IsAvailableAndFree\<close> a checked delete of \<^verbatim>\<open>H\<close> is requested and the loop continues.
  When the state is \<^verbatim>\<open>IsAvailableAndReservedByMe\<close> and \<^verbatim>\<open>H\<close> is not a hash of a
  locally-held file, \<^verbatim>\<open>DeleteReservation(H)\<close> is called: if it returns, a checked delete
  of \<^verbatim>\<open>H\<close> is requested and the loop continues on the bucket it left; if it ends the
  process (the tag could not be deleted), the run ends there, with no checked delete of
  \<^verbatim>\<open>H\<close> and no call for any later entry. In every other case no call is made for
  \<^verbatim>\<open>H\<close>. When the whole run returns on a map whose keys are distinct hex keys, no other
  entry makes a call for \<^verbatim>\<open>H\<close>: a checked delete of \<^verbatim>\<open>H\<close> is requested exactly in the
  first two cases and the reservation of \<^verbatim>\<open>H\<close> is deleted exactly in the second.
\<close>

theorem cleanup_classification:
  assumes files: "None \<notin> set files"
    and pre: "cleanupUnneededReservations hm (Inr files) pre w0 = (Returned None, t1, w1)"
  shows
    "(IsAvailableAndFree st \<longrightarrow>
        cleanupUnneededReservations hm (Inr files) (pre @ (H, st) # post) w0 =
          reclaim_loop hm (usedBlockHashes (map the files)) post
            (t1 @ [CallRequestCheckedDelete (StringMapKeyToHashNoError H)]) w1)
     \<and> (\<not> IsAvailableAndFree st \<and> IsAvailableAndReservedByMe st
          \<and> H \<notin> usedBlockHashes (map the files)
          \<and> DeleteReservation hm (StringMapKeyToHashNoError H) w1 = (Returned (), w2) \<longrightarrow>
        cleanupUnneededReservations hm (Inr files) (pre @ (H, st) # post) w0 =
          reclaim_loop hm (usedBlockHashes (map the files)) post
            (t1 @ [CallDeleteReservation (StringMapKeyToHashNoError H),
                   CallRequestCheckedDelete (StringMapKeyToHashNoError H)]) w2)
     \<and> (\<not> IsAvailableAndFree st \<and> IsAvailableAndReservedByMe st
          \<and> H \<notin> usedBlockHashes (map the files)
          \<and> DeleteReservation hm (StringMapKeyToHashNoError H) w1 = (Fatal, w3) \<longrightarrow>
        cleanupUnneededReservations hm (Inr files) (pre @ (H, st) # post) w0 =
          (Fatal, t1 @ [CallDeleteReservation (StringMapKeyToHashNoError H)], w3))
     \<and> (\<not> IsAvailableAndFree st
          \<and> \<not> (IsAvailableAndReservedByMe st \<and> H \<notin> usedBlockHashes (map the files)) \<longrightarrow>
        cleanupUnneededReservations hm (Inr files) (pre @ (H, st) # post) w0 =
          reclaim_loop hm (usedBlockHashes (map the files)) post t1 w1)
     \<and> (cleanupUnneededReservations hm (Inr files) (pre @ (H, st) # post) w0 = (Returned None, tr, w')
          \<and> distinct (map fst (pre @ (H, st) # post))
          \<and> (\<forall>k \<in> fst ` set (pre @ (H, st) # post). \<exists>h. k = HashToStringMapKey h) \<longrightarrow>
        (CallRequestCheckedDelete (StringMapKeyToHashNoError H) \<in> set tr
           \<longleftrightarrow> IsAvailableAndFree st
               \<or> IsAvailableAndReservedByMe st \<and> H \<notin> usedBlockHashes (map the files))
        \<and> (CallDeleteReservation (StringMapKeyToHashNoError H) \<in> set tr
           \<longleftrightarrow> \<not> IsAvailableAndFree st
               \<and> IsAvailableAndReservedByMe st \<and> H \<notin> usedBlockHashes (map the files)))"
proof -
  let ?used = "usedBlockHashes (map the files)"
  let ?cm = "pre @ (H, st) # post"
  let ?dec = StringMapKeyToHashNoError
  have run: "cleanupUnneededReservations hm (Inr files) xs w0 = reclaim_loop hm ?used xs [] w0" for xs
    using files by (simp add: cleanupUnneededReservations_def)
  have "reclaim_loop hm ?used pre [] w0 = (Returned None, t1, w1)"
    using pre by (simp add: run)
  then have split: "cleanupUnneededReservations hm (Inr files) ?cm w0 =
      reclaim_loop hm ?used ((H, st) # post) t1 w1"
    unfolding run by (rule reclaim_loop_append)
  have 1: "cleanupUnneededReservations hm (Inr files) ?cm w0 =
      reclaim_loop hm ?used post (t1 @ [CallRequestCheckedDelete (?dec H)]) w1"
    if "IsAvailableAndFree st"
    using that by (simp add: split Let_def)
  have 2: "cleanupUnneededReservations hm (Inr files) ?cm w0 =
      reclaim_loop hm ?used post
        (t1 @ [CallDeleteReservation (?dec H), CallRequestCheckedDelete (?dec H)]) w2"
    if "\<not> IsAvailableAndFree st \<and> IsAvailableAndReservedByMe st \<and> H \<notin> ?used
        \<and> DeleteReservation hm (?dec H) w1 = (Returned (), w2)"
    using that by (simp add: split Let_def)
  have 3: "cleanupUnneededReservations hm (Inr files) ?cm w0 = (Fatal, t1 @ [CallDeleteReservation (?dec H)], w3)"
    if "\<not> IsAvailableAndFree st \<and> IsAvailableAndReservedByMe st \<and> H \<notin> ?used
        \<and> DeleteReservation hm (?dec H) w1 = (Fatal, w3)"
    using that by (simp add: split Let_def)
  have 4: "cleanupUnneededReservations hm (Inr files) ?cm w0 = reclaim_loop hm ?used post t1 w1"
    if "\<not> IsAvailableAndFree st \<and> \<not> (IsAvailableAndReservedByMe st \<and> H \<notin> ?used)"
    using that by (auto simp add: split Let_def)
  have 5: "(CallRequestCheckedDelete (?dec H) \<in> set tr
           \<longleftrightarrow> IsAvailableAndFree st \<or> IsAvailableAndReservedByMe st \<and> H \<notin> ?used)
        \<and> (CallDeleteReservation (?dec H) \<in> set tr
           \<longleftrightarrow> \<not> IsAvailableAndFree st \<and> IsAvailableAndReservedByMe st \<and> H \<notin> ?used)"
    if a: "cleanupUnneededReservations hm (Inr files) ?cm w0 = (Returned None, tr, w')
          \<and> distinct (map fst ?cm)
          \<and> (\<forall>k \<in> fst ` set ?cm. \<exists>h. k = HashToStringMapKey h)"
  proof -
    from a have "reclaim_loop hm ?used ?cm [] w0 = (Returned None, tr, w')"
      by (simp add: run)
    then have "tr = [] @ concat (map (entry_calls ?used) ?cm)"
      by (rule reclaim_loop_trace)
    then have set_calls: "set tr =
        (\<Union>e \<in> set pre \<union> set post. set (entry_calls ?used e))
        \<union> set (entry_calls ?used (H, st))"
      by auto
    have own: "entry_calls ?used (H, st) =
        (if IsAvailableAndFree st then [CallRequestCheckedDelete (?dec H)]
         else if IsAvailableAndReservedByMe st \<and> H \<notin> ?used
         then [CallDeleteReservation (?dec H), CallRequestCheckedDelete (?dec H)]
         else [])"
      by (simp add: entry_calls_def)
    from a have notin: "H \<notin> fst ` set pre" "H \<notin> fst ` set post"
      by auto
    from a have hexkeys: "\<exists>h. k = HashToStringMapKey h"
      if "k \<in> fst ` (set pre \<union> set post) \<union> {H}" for k
      using that by auto
    have others: "c \<noteq> CallRequestCheckedDelete (?dec H) \<and> c \<noteq> CallDeleteReservation (?dec H)"
      if e: "e \<in> set pre \<union> set post" and c: "c \<in> set (entry_calls ?used e)" for e c
    proof -
      obtain k st' where kst: "e = (k, st')" by (cases e)
      from e kst have kin: "k \<in> fst ` (set pre \<union> set post)"
        by (metis fst_conv imageI)
      with notin have "k \<noteq> H" by auto
      moreover from kin obtain h where "k = HashToStringMapKey h"
        using hexkeys [of k] by blast
      moreover obtain h0 where "H = HashToStringMapKey h0"
        using hexkeys [of H] by blast
      ultimately have "?dec k \<noteq> ?dec H"
        by (auto simp add: decode_encode)
      with c kst entry_calls_hashes [of c ?used k st'] show ?thesis by auto
    qed
    show ?thesis
      using others by (auto simp add: set_calls own)
  qed
  from 1 2 3 4 5 show ?thesis by blast
qed

theorem cleanup_classification_witness:
  "None \<notin> set [Some [[3 :: byte]]]
   \<and> cleanupUnneededReservations store_A (Inr [Some [[3]]]) [(''01'', st_free)] world_tags =
       (Returned None, [CallRequestCheckedDelete [1]], world_tags)
   \<and> \<not> IsAvailableAndFree st_mine \<and> IsAvailableAndReservedByMe st_mine
   \<and> ''02'' \<notin> usedBlockHashes (map the [Some [[3]]])
   \<and> DeleteReservation store_A (StringMapKeyToHashNoError ''02'') world_tags =
       (Returned (), world_untagged)
   \<and> distinct (map fst ([(''01'', st_free)] @ (''02'', st_mine) #
        [(''03'', st_mine), (''04'', st_others)]))
   \<and> ''01'' = HashToStringMapKey [1] \<and> ''02'' = HashToStringMapKey [2]
   \<and> ''03'' = HashToStringMapKey [3] \<and> ''04'' = HashToStringMapKey [4]
   \<and> cleanupUnneededReservations store_A (Inr [Some [[3]]])
        ([(''01'', st_free)] @ (''02'', st_mine) # [(''03'', st_mine), (''04'', st_others)])
        world_tags =
       (Returned None,
        [CallRequestCheckedDelete [1], CallDeleteReservation [2], CallRequestCheckedDelete [2]],
        world_untagged)
   \<and> CallDeleteReservation (StringMapKeyToHashNoError ''02'')
        \<in> set [CallRequestCheckedDelete [1], CallDeleteReservation [2],
                CallRequestCheckedDelete [2]]
   \<and> CallRequestCheckedDelete (StringMapKeyToHashNoError ''02'')
        \<in> set [CallRequestCheckedDelete [1], CallDeleteReservation [2],
                CallRequestCheckedDelete [2]]
   \<and> cleanupUnneededReservations store_A (Inr [Some [[3]]]) [(''01'', st_free)]
        (world_tags\<lparr>faults := [True]\<rparr>) =
       (Returned None, [CallRequestCheckedDelete [1]], world_tags\<lparr>faults := [True]\<rparr>)
   \<and> DeleteReservation store_A (StringMapKeyToHashNoError ''02'')
        (world_tags\<lparr>faults := [True]\<rparr>) = (Fatal, world_tags_failed)
   \<and> cleanupUnneededReservations store_A (Inr [Some [[3]]])
        ([(''01'', st_free)] @ (''02'', st_mine) # [(''03'', st_mine), (''04'', st_others)])
        (world_tags\<lparr>faults := [True]\<rparr>) =
       (Fatal, [CallRequestCheckedDelete [1], CallDeleteReservation [2]], world_tags_failed)"
proof -
  have files: "None \<notin> set [Some [[3 :: byte]]]" by simp
  have pre: "cleanupUnneededReservations store_A (Inr [Some [[3]]]) [(''01'', st_free)] w =
      (Returned None, [CallRequestCheckedDelete [1]], w)" for w
    by (simp add: cleanupUnneededReservations_def state_facts hex_val_def Let_def)
  have del: "DeleteReservation store_A (StringMapKeyToHashNoError ''02'') world_tags =
      (Returned (), world_untagged)"
    "DeleteReservation store_A (StringMapKeyToHashNoError ''02'')
        (world_tags\<lparr>faults := [True]\<rparr>) = (Fatal, world_tags_failed)"
    by (simp_all add: DeleteReservation_world_tags hex_val_def)
  have post: "reclaim_loop store_A {''03''} [(''03'', st_mine), (''04'', st_others)] tr w =
      (Returned None, tr, w)" for tr w
    by (simp add: state_facts)
  have st: "\<not> IsAvailableAndFree st_mine" "IsAvailableAndReservedByMe st_mine"
    "''02'' \<notin> usedBlockHashes (map the [Some [[3]]])"
    by (simp_all add: state_facts used_three)
  have keys: "''01'' = HashToStringMapKey [1]" "''02'' = HashToStringMapKey [2]"
    "''03'' = HashToStringMapKey [3]" "''04'' = HashToStringMapKey [4]"
    by (simp_all add: HashToStringMapKey_def hex_byte_def hextable_def)
  have dist: "distinct (map fst ([(''01'', st_free)] @ (''02'', st_mine) #
        [(''03'', st_mine), (''04'', st_others)]))"
    by simp
  have returns: "cleanupUnneededReservations store_A (Inr [Some [[3]]])
        ([(''01'', st_free)] @ (''02'', st_mine) # [(''03'', st_mine), (''04'', st_others)])
        world_tags =
       (Returned None,
        [CallRequestCheckedDelete [1], CallDeleteReservation [2], CallRequestCheckedDelete [2]],
        world_untagged)"
    using cleanup_classification [OF files pre, where st = st_mine and H = "''02''"
        and ?w2.0 = world_untagged and post = "[(''03'', st_mine), (''04'', st_others)]"]
      del(1)
    by (simp add: state_facts used_three post hex_val_def)
  have calls: "CallDeleteReservation (StringMapKeyToHashNoError ''02'')
        \<in> set [CallRequestCheckedDelete [1], CallDeleteReservation [2],
                CallRequestCheckedDelete [2]]
      \<and> CallRequestCheckedDelete (StringMapKeyToHashNoError ''02'')
        \<in> set [CallRequestCheckedDelete [1], CallDeleteReservation [2],
                CallRequestCheckedDelete [2]]"
    using cleanup_classification [OF files pre, where st = st_mine and H = "''02''"
        and post = "[(''03'', st_mine), (''04'', st_others)]" and w' = world_untagged
        and tr = "[CallRequestCheckedDelete [1], CallDeleteReservation [2],
                   CallRequestCheckedDelete [2]]"]
      returns hex_keys_four dist st
    by blast
  have fatal: "cleanupUnneededReservations store_A (Inr [Some [[3]]])
        ([(''01'', st_free)] @ (''02'', st_mine) # [(''03'', st_mine), (''04'', st_others)])
        (world_tags\<lparr>faults := [True]\<rparr>) =
       (Fatal, [CallRequestCheckedDelete [1], CallDeleteReservation [2]], world_tags_failed)"
    using cleanup_classification [OF files pre, where st = st_mine and H = "''02''"
        and ?w3.0 = world_tags_failed and post = "[(''03'', st_mine), (''04'', st_others)]"]
      del(2)
    by (simp add: state_facts used_three hex_val_def)
  show ?thesis
    using files pre [of world_tags] pre [of "world_tags\<lparr>faults := [True]\<rparr>"] st del dist
      keys returns calls fatal
    by blast
qed

text \<open>
  C2 as stated fails: the entry \<^verbatim>\<open>02\<close> is reserved by the caller and not referenced
  locally, the delete of its \<^verbatim>\<open>used-by\<close> tag fails with a transient error, and
  \<^verbatim>\<open>DeleteReservation\<close> ends the process: no checked delete is requested for \<^verbatim>\<open>02\<close>,
  nor for the free entry \<^verbatim>\<open>05\<close> that the loop had not reached.
\<close>

theorem cleanup_fatal_counterexample:
  "IsAvailableAndReservedByMe st_mine \<and> \<not> IsAvailableAndFree st_mine
   \<and> ''02'' \<notin> usedBlockHashes (map the [Some [[3]]])
   \<and> cleanupUnneededReservations store_A (Inr [Some [[3]]])
        [(''01'', st_free), (''02'', st_mine), (''05'', st_free)]
        (world_tags\<lparr>faults := [True]\<rparr>) =
       (Fatal, [CallRequestCheckedDelete [1], CallDeleteReservation [2]], world_tags_failed)
   \<and> CallRequestCheckedDelete (StringMapKeyToHashNoError ''02'')
        \<notin> set [CallRequestCheckedDelete [1], CallDeleteReservation [2]]
   \<and> CallRequestCheckedDelete (StringMapKeyToHashNoError ''05'')
        \<notin> set [CallRequestCheckedDelete [1], CallDeleteReservation [2]]"
  by (simp add: cleanupUnneededReservations_def state_facts used_three DeleteReservation_world_tags hex_val_def
      Let_def)


section \<open>The builder at the empty hash\<close>

lemma builder_rules:
  "currentHash b = h \<Longrightarrow>
     addData h b = b\<lparr>currentState := (currentState b)\<lparr>dataExists := True\<rparr>\<rparr>
   \<and> addUse h who b =
       (if IsAvailable (currentState b)
        then (if who = ownName b
              then b\<lparr>currentState := (currentState b)\<lparr>reservedByMe := True\<rparr>\<rparr>
              else b\<lparr>currentState := (currentState b)\<lparr>reservedByOthers := True\<rparr>\<rparr>)
        else b)"
  "h \<noteq> currentHash b \<Longrightarrow>
     snd (completeIfNextHash h b) =
       b\<lparr>emitted := (if dataExists (currentState b)
                      then emitted b @ [(StringMapKeyToHashNoError (currentHash b), currentState b)]
                      else emitted b),
         currentHash := h, currentState := emptyState\<rparr>"
  "currentHash b \<noteq> [] \<Longrightarrow>
     emitted (close b) =
       (if dataExists (currentState b)
        then emitted b @ [(StringMapKeyToHashNoError (currentHash b), currentState b)]
        else emitted b)"
  by (auto simp add: addData_def addUse_def completeIfNextHash_def close_def Let_def)

lemma world_empty_hash_eq:
  "world_empty_hash =
     \<lparr>objects = [(''blocks/.used-by.A'', \<lparr>content = [], modTime = 0\<rparr>),
                 (''blocks/'', \<lparr>content = [9], modTime = 0\<rparr>)],
      clock = 0, faults = [],
      calls = [CallExists ''blocks/.used-by.A'', CallWriteAll ''blocks/.used-by.A'',
               CallWriteAll ''blocks/''],
      warnings = []\<rparr>"
  by (simp add: world_empty_hash_def ReserveAndSet_def putATag_def IsReadOnly_def store_A_def
      getATag_def getBlockStringKey_def BlockDataSubFolder_def HashToStringMapKey_def
      BLOCK_USE_TAG_def bucket_defs fresh_bucket_def Let_def)

text \<open>
  C4 at the bucket that holds only the block of the empty hash and its \<^verbatim>\<open>used-by\<close> tag
  (what \<^verbatim>\<open>ReserveAndSet\<close> of the empty hash leaves): the builder has set
  \<^verbatim>\<open>dataExists\<close> for the current hash, the empty string, and \<^verbatim>\<open>close\<close> emits nothing,
  because it flushes by switching to the empty string; a pass of \<^verbatim>\<open>IterateBlocksInternal\<close>
  over that bucket yields no record.
\<close>

theorem close_skips_empty_hash:
  "dataExists (currentState (fold (processObject 0)
       [\<lparr>Key = ''blocks/'', ModTime = 0\<rparr>, \<lparr>Key = ''blocks/.used-by.A'', ModTime = 0\<rparr>]
       (NewHashBlockStorageMapBuilder ''A'')))
   \<and> emitted (close (fold (processObject 0)
       [\<lparr>Key = ''blocks/'', ModTime = 0\<rparr>, \<lparr>Key = ''blocks/.used-by.A'', ModTime = 0\<rparr>]
       (NewHashBlockStorageMapBuilder ''A''))) = []
   \<and> listing ''blocks/'' world_empty_hash =
       [\<lparr>Key = ''blocks/'', ModTime = 0\<rparr>, \<lparr>Key = ''blocks/.used-by.A'', ModTime = 0\<rparr>]
   \<and> fst (IterateBlocksInternal False store_A [] world_empty_hash) = (None, [])"
proof -
  have l: "listing ''blocks/'' (world_empty_hash\<lparr>calls := cs\<rparr>) =
       [\<lparr>Key = ''blocks/'', ModTime = 0\<rparr>, \<lparr>Key = ''blocks/.used-by.A'', ModTime = 0\<rparr>]" for cs
    by (simp add: world_empty_hash_eq listing_def list_object_def)
  have b: "fold (processObject 0)
       [\<lparr>Key = ''blocks/'', ModTime = 0\<rparr>, \<lparr>Key = ''blocks/.used-by.A'', ModTime = 0\<rparr>]
       (NewHashBlockStorageMapBuilder ''A'') =
     \<lparr>ownName = ''A'', emitted = [], currentHash = [],
      currentState = emptyState\<lparr>dataExists := True, reservedByMe := True\<rparr>\<rparr>"
    by (simp add: processObject_def CutPrefix_def BlockDataSubFolder_def BLOCK_USE_TAG_def
        NewHashBlockStorageMapBuilder_def addData_def addUse_def completeIfNextHash_def
        IsAvailable_def emptyState_def Let_def)
  have c: "emitted (close \<lparr>ownName = ''A'', emitted = [], currentHash = [],
      currentState = emptyState\<lparr>dataExists := True, reservedByMe := True\<rparr>\<rparr>) = []"
    by (simp add: close_def completeIfNextHash_def)
  have i: "fst (IterateBlocksInternal False store_A [] world_empty_hash) = (None, [])"
    using l [of "calls world_empty_hash @ [CallListPage ''blocks/'' 0 4096]"] b c
    apply (simp add: IterateBlocksInternal_def BlockDataSubFolder_def store_A_def
        bucket_ListPage_def enter_call_def Let_def split: prod.splits)
    apply (simp add: world_empty_hash_eq)
    done
  show ?thesis
    using l [of "calls world_empty_hash"] b c i by (simp add: emptyState_def)
qed

section \<open>Freshness of deletion tags\<close>

lemma list_object_cong: "objects w' = objects w \<Longrightarrow> list_object w' = list_object w"
  by (rule ext) (simp add: list_object_def)

lemma listing_cong: "objects w' = objects w \<Longrightarrow> listing pfx w' = listing pfx w"
  using list_object_cong [of w' w] by (simp add: listing_def)

lemma enter_call_same:
  "enter_call c w = (f, w') \<Longrightarrow> objects w' = objects w \<and> clock w' = clock w"
  by (auto simp add: enter_call_def split: list.splits)

lemma ListPage_ok:
  assumes "bucket_ListPage tok n pfx w = (Inr (page, nxt), w')"
  shows "page = take n (drop tok (listing pfx w)) \<and> objects w' = objects w
         \<and> clock w' = clock w"
proof -
  obtain f w1 where e: "enter_call (CallListPage pfx tok n) w = (f, w1)"
    by (cases "enter_call (CallListPage pfx tok n) w")
  with assms have "f = False" "w' = w1" "page = take n (drop tok (listing pfx w1))"
    by (auto simp add: bucket_ListPage_def Let_def split: bool.splits)
  with enter_call_same [OF e] listing_cong [of w1 w pfx] show ?thesis
    by simp
qed

lemma Key_list_object: "Key (list_object w k) = k"
  by (simp add: list_object_def)

lemma listing_entry:
  assumes "e \<in> set (listing pfx w)"
  shows "prefix pfx (Key e) \<and> e = list_object w (Key e) \<and> Key e \<in> fst ` set (objects w)"
proof -
  from assms obtain k where k: "e = list_object w k"
    "k \<in> set (filter (prefix pfx) (map fst (objects w)))"
    by (auto simp add: listing_def)
  then show ?thesis
    by (simp add: Key_list_object)
qed

lemma page_entry:
  assumes "bucket_ListPage tok n pfx w = (Inr (page, nxt), w')" "e \<in> set page"
  shows "prefix pfx (Key e) \<and> e = list_object w (Key e)"
proof -
  from assms(1) have "page = take n (drop tok (listing pfx w))"
    by (simp add: ListPage_ok)
  with assms(2) have "e \<in> set (listing pfx w)"
    by (metis in_set_dropD in_set_takeD)
  then show ?thesis
    by (simp add: listing_entry)
qed

lemma WriteAll_writes:
  assumes "bucket_WriteAll key data w = (None, w')"
  shows "map_of (objects w') key = Some \<lparr>content = data, modTime = clock w\<rparr>"
proof -
  obtain f w1 where e: "enter_call (CallWriteAll key) w = (f, w1)"
    by (cases "enter_call (CallWriteAll key) w")
  with assms have "f = False"
    and w': "w' = w1\<lparr>objects :=
        AList.update key \<lparr>content = data, modTime = clock w1\<rparr> (objects w1)\<rparr>"
    by (auto simp add: bucket_WriteAll_def split: bool.splits)
  from enter_call_same [OF e] have "clock w1 = clock w" by simp
  with w' show ?thesis
    by (simp add: update_conv')
qed

lemma AnnounceDelete_writes:
  assumes "AnnounceDelete a h w0 = (None, wa)"
  shows "map_of (objects wa) (getATag a h BLOCK_DELETE_TAG) =
           Some \<lparr>content = [], modTime = clock w0\<rparr>"
proof -
  from assms have "bucket_WriteAll (getATag a h BLOCK_DELETE_TAG) [] w0 = (None, wa)"
    by (simp add: AnnounceDelete_def putATag_def Let_def split: if_splits)
  then show ?thesis
    by (rule WriteAll_writes)
qed

lemma update_nonempty: "AList.update k v al \<noteq> []"
  by (cases al) auto

lemma scan_entry_keeps:
  "deletesMap s \<noteq> [] \<Longrightarrow> deletesMap (scan_entry pfx now e s) \<noteq> []"
  by (auto simp add: scan_entry_def Let_def update_nonempty split: prod.splits bool.splits)

lemma scan_entry_fresh:
  assumes "is_delete_tag pfx e" "now - ModTime e < TIME_CONSTANT_BASE"
  shows "deletesMap (scan_entry pfx now e s) \<noteq> []"
proof -
  from assms(1) obtain p where p: "Key e = pfx @ ''.deletion-by.'' @ p"
    by (auto simp add: is_delete_tag_def prefix_def BLOCK_DELETE_TAG_def)
  show ?thesis
    using assms(2)
    by (simp add: scan_entry_def CutPrefix_def p BLOCK_USE_TAG_def BLOCK_DELETE_TAG_def
        Let_def update_nonempty)
qed

lemma scan_entry_stale:
  assumes "prefix pfx (Key e)"
    and "is_delete_tag pfx e \<longrightarrow> TIME_CONSTANT_BASE \<le> now - ModTime e"
  shows "deletesMap (scan_entry pfx now e s) = deletesMap s"
proof -
  from assms(1) obtain r where r: "Key e = pfx @ r"
    by (auto simp add: prefix_def)
  have "is_delete_tag pfx e = prefix (''.'' @ BLOCK_DELETE_TAG @ ''.'') r"
    by (simp add: is_delete_tag_def r)
  with assms(2) show ?thesis
    by (auto simp add: scan_entry_def CutPrefix_def r Let_def split: prod.splits bool.splits)
qed

lemma scan_fold_nonempty:
  "deletesMap s \<noteq> [] \<Longrightarrow> deletesMap (fold (scan_entry pfx now) page s) \<noteq> []"
  by (induction page arbitrary: s) (simp_all add: scan_entry_keeps)

lemma scan_fold_fresh:
  "e \<in> set page \<Longrightarrow> is_delete_tag pfx e \<Longrightarrow> now - ModTime e < TIME_CONSTANT_BASE \<Longrightarrow>
   deletesMap (fold (scan_entry pfx now) page s) \<noteq> []"
proof (induction page arbitrary: s)
  case Nil
  then show ?case by simp
next
  case (Cons x page)
  show ?case
  proof (cases "x = e")
    case True
    with Cons.prems have "deletesMap (scan_entry pfx now x s) \<noteq> []"
      by (simp add: scan_entry_fresh)
    then show ?thesis
      by (simp add: scan_fold_nonempty)
  next
    case False
    with Cons.prems have "e \<in> set page" by auto
    then have "deletesMap (fold (scan_entry pfx now) page (scan_entry pfx now x s)) \<noteq> []"
      using Cons.prems(2,3) by (rule Cons.IH)
    then show ?thesis by simp
  qed
qed

lemma scan_fold_stale:
  "\<forall>e \<in> set page. prefix pfx (Key e)
      \<and> (is_delete_tag pfx e \<longrightarrow> TIME_CONSTANT_BASE \<le> now - ModTime e) \<Longrightarrow>
   deletesMap (fold (scan_entry pfx now) page s) = deletesMap s"
  by (induction page arbitrary: s) (simp_all add: scan_entry_stale)

lemma scan_entry_data:
  assumes "prefix pfx (Key e)"
  shows "(dataEntry (scan_entry pfx now e s) \<noteq> None) = (dataEntry s \<noteq> None \<or> Key e = pfx)"
proof -
  from assms obtain r where r: "Key e = pfx @ r"
    by (auto simp add: prefix_def)
  show ?thesis
    by (cases "r = []")
      (auto simp add: scan_entry_def CutPrefix_def r Let_def split: prod.splits bool.splits)
qed

lemma scan_fold_data:
  "\<forall>e \<in> set page. prefix pfx (Key e) \<Longrightarrow>
   (dataEntry (fold (scan_entry pfx now) page s) \<noteq> None) =
     (dataEntry s \<noteq> None \<or> pfx \<in> Key ` set page)"
proof (induction page arbitrary: s)
  case Nil
  show ?case by simp
next
  case (Cons x page)
  have "(dataEntry (fold (scan_entry pfx now) (x # page) s) \<noteq> None) =
        (dataEntry (scan_entry pfx now x s) \<noteq> None \<or> pfx \<in> Key ` set page)"
    using Cons.IH [of "scan_entry pfx now x s"] Cons.prems by simp
  also have "\<dots> = ((dataEntry s \<noteq> None \<or> Key x = pfx) \<or> pfx \<in> Key ` set page)"
    using scan_entry_data [of pfx x now s] Cons.prems by simp
  also have "\<dots> = (dataEntry s \<noteq> None \<or> pfx \<in> Key ` set (x # page))"
    by auto
  finally show ?case .
qed

lemma checkExistence_page:
  assumes "bucket_ListPage 0 10 (getBlockStringKey h) w1 = (Inr (page, nxt), w2)"
  shows "checkExistence h w1 =
      (let s = scan_page (getBlockStringKey h) (clock w1) page in
       if length (deletesMap s) > 0 then ((False, True), w2)
       else if dataEntry s = None then ((False, False), w2)
       else ((True, False), w2))"
  using assms ListPage_ok [OF assms] by (simp add: checkExistence_def Let_def)

lemma checkExistence_fresh:
  assumes lst: "bucket_ListPage 0 10 (getBlockStringKey h) w1 = (Inr (page, nxt), w2)"
    and e: "e \<in> set page" "is_delete_tag (getBlockStringKey h) e"
      "clock w1 - ModTime e < TIME_CONSTANT_BASE"
  shows "checkExistence h w1 = ((False, True), w2)"
proof -
  have "deletesMap (scan_page (getBlockStringKey h) (clock w1) page) \<noteq> []"
    unfolding scan_page_def using e by (rule scan_fold_fresh)
  then show ?thesis
    by (simp add: checkExistence_page [OF lst] Let_def)
qed

lemma checkExistence_stale:
  assumes lst: "bucket_ListPage 0 10 (getBlockStringKey h) w1 = (Inr (page, nxt), w2)"
    and st: "\<forall>e \<in> set page. is_delete_tag (getBlockStringKey h) e \<longrightarrow>
              TIME_CONSTANT_BASE \<le> clock w1 - ModTime e"
  shows "checkExistence h w1 = ((getBlockStringKey h \<in> Key ` set page, False), w2)"
proof -
  let ?pfx = "getBlockStringKey h"
  have pre: "\<forall>e \<in> set page. prefix ?pfx (Key e)"
    using page_entry [OF lst] by blast
  have d: "deletesMap (scan_page ?pfx (clock w1) page) = []"
    unfolding scan_page_def
    using scan_fold_stale [of page ?pfx "clock w1"] pre st by simp
  have "(dataEntry (scan_page ?pfx (clock w1) page) \<noteq> None) = (?pfx \<in> Key ` set page)"
    unfolding scan_page_def
    using scan_fold_data [OF pre, of "clock w1"
        "\<lparr>usesMap = [], deletesMap = [], dataEntry = None\<rparr>"]
    by simp
  then have "(dataEntry (scan_page ?pfx (clock w1) page) = None) = (?pfx \<notin> Key ` set page)"
    by blast
  with d show ?thesis
    by (simp add: checkExistence_page [OF lst] Let_def)
qed

text \<open>
  C3, as the code has it. Take a non-empty hash and a \<^verbatim>\<open>ReserveAndGet\<close> whose tag put
  (on a writable handle) and whose listing of the first ten keys under the block key
  succeed. If \<^verbatim>\<open>AnnounceDelete\<close> succeeded at time \<open>clock w0\<close>, its tag is still as it
  was written, it is among the ten keys listed and the listing is taken less than
  \<^verbatim>\<open>TIME_CONSTANT_BASE\<close> after the announcement, then the reserve-and-check asks for a
  retry and \<^verbatim>\<open>ReserveAndGet\<close> is what \<^verbatim>\<open>ReserveAndGet\<close> is one minute later: it sleeps
  one minute and runs the whole operation again. If every \<^verbatim>\<open>deletion-by\<close> tag among the
  keys listed is at least \<^verbatim>\<open>TIME_CONSTANT_BASE\<close> old, no retry is asked for and the call
  returns whether the bare block key was listed.
\<close>

theorem deletion_tag_freshness:
  assumes ne: "h \<noteq> []"
    and put: "if IsReadOnly hm then w1 = w else putATag hm h BLOCK_USE_TAG False w = (None, w1)"
    and lst: "bucket_ListPage 0 10 (getBlockStringKey h) w1 = (Inr (page, nxt), w2)"
  shows "(AnnounceDelete a h w0 = (None, wa)
          \<and> map_of (objects w1) (getATag a h BLOCK_DELETE_TAG) =
              map_of (objects wa) (getATag a h BLOCK_DELETE_TAG)
          \<and> getATag a h BLOCK_DELETE_TAG \<in> Key ` set page
          \<and> clock w1 - clock w0 < TIME_CONSTANT_BASE
         \<longrightarrow> reserveAndCheckExistence hm h w = ((False, True), w2)
           \<and> ReserveAndGet hm h downloadData w =
               ReserveAndGet hm h downloadData (sleep minute w2))
       \<and> ((\<forall>e \<in> set page. is_delete_tag (getBlockStringKey h) e \<longrightarrow>
              TIME_CONSTANT_BASE \<le> clock w1 - ModTime e)
         \<longrightarrow> reserveAndCheckExistence hm h w =
               ((getBlockStringKey h \<in> Key ` set page, False), w2)
           \<and> ReserveAndGet hm h False w =
               Some (Returned (None, getBlockStringKey h \<in> Key ` set page), w2))"
proof (intro conjI impI)
  let ?pfx = "getBlockStringKey h"
  have rc: "reserveAndCheckExistence hm h w = checkExistence h w1"
    using put by (auto simp add: reserveAndCheckExistence_def split: if_splits)
  {
    assume a: "AnnounceDelete a h w0 = (None, wa)
          \<and> map_of (objects w1) (getATag a h BLOCK_DELETE_TAG) =
              map_of (objects wa) (getATag a h BLOCK_DELETE_TAG)
          \<and> getATag a h BLOCK_DELETE_TAG \<in> Key ` set page
          \<and> clock w1 - clock w0 < TIME_CONSTANT_BASE"
    then obtain e where e: "e \<in> set page" "Key e = getATag a h BLOCK_DELETE_TAG"
      by auto
    from a have "map_of (objects w1) (Key e) = Some \<lparr>content = [], modTime = clock w0\<rparr>"
      using AnnounceDelete_writes [of a h w0 wa] e(2) by simp
    moreover have "e = list_object w1 (Key e)"
      using page_entry [OF lst e(1)] by simp
    ultimately have "e = \<lparr>Key = Key e, ModTime = clock w0\<rparr>"
      by (simp add: list_object_def)
    then have mt: "ModTime e = clock w0"
      by (metis ListObject.select_convs(2))
    have tag: "is_delete_tag ?pfx e"
      by (simp add: is_delete_tag_def e(2) getATag_def)
    from a mt have "clock w1 - ModTime e < TIME_CONSTANT_BASE" by simp
    with lst e(1) tag have "checkExistence h w1 = ((False, True), w2)"
      by (rule checkExistence_fresh)
    then show r: "reserveAndCheckExistence hm h w = ((False, True), w2)"
      by (simp add: rc)
    have "ReserveAndGet_loop hm h w = ReserveAndGet_loop hm h (sleep minute w2)"
      using r by (rule loop_retry)
    with ne show "ReserveAndGet hm h downloadData w =
               ReserveAndGet hm h downloadData (sleep minute w2)"
      by (simp add: ReserveAndGet_def)
  }
  {
    assume st: "\<forall>e \<in> set page. is_delete_tag ?pfx e \<longrightarrow>
              TIME_CONSTANT_BASE \<le> clock w1 - ModTime e"
    with lst have "checkExistence h w1 = ((?pfx \<in> Key ` set page, False), w2)"
      by (rule checkExistence_stale)
    then show r: "reserveAndCheckExistence hm h w = ((?pfx \<in> Key ` set page, False), w2)"
      by (simp add: rc)
    have "ReserveAndGet_loop hm h w = Some (?pfx \<in> Key ` set page, w2)"
      using r by (rule loop_done)
    with ne show "ReserveAndGet hm h False w =
               Some (Returned (None, ?pfx \<in> Key ` set page), w2)"
      by (simp add: ReserveAndGet_def)
  }
qed

lemma announce_ab:
  "AnnounceDelete store_A [0xab] world_ab = (None, world_announced)"
  by (simp add: AnnounceDelete_def putATag_def IsReadOnly_def store_A_def getATag_def key_ab
      BLOCK_DELETE_TAG_def bucket_defs world_ab_def world_announced_def tag0_def Let_def)

lemma page_announced:
  "bucket_ListPage 0 10 (getBlockStringKey [0xab]) (world_announced\<lparr>clock := c\<rparr>) =
     (Inr ([\<lparr>Key = ''blocks/ab'', ModTime = 0\<rparr>,
            \<lparr>Key = ''blocks/ab.deletion-by.A'', ModTime = 0\<rparr>], None),
      world_announced\<lparr>clock := c,
        calls := [CallWriteAll ''blocks/ab.deletion-by.A'', CallListPage ''blocks/ab'' 0 10]\<rparr>)"
  by (simp add: key_ab bucket_ListPage_def enter_call_def listing_def list_object_def
      world_announced_def tag0_def Let_def)

theorem deletion_tag_freshness_witness:
  "[0xab :: byte] \<noteq> [] \<and> IsReadOnly store_ro
   \<and> AnnounceDelete store_A [0xab] world_ab = (None, world_announced)
   \<and> getATag store_A [0xab] BLOCK_DELETE_TAG = ''blocks/ab.deletion-by.A''
   \<and> clock (world_announced\<lparr>clock := 30000000000\<rparr>) - clock world_ab < TIME_CONSTANT_BASE
   \<and> reserveAndCheckExistence store_ro [0xab] (world_announced\<lparr>clock := 30000000000\<rparr>) =
       ((False, True), world_announced\<lparr>clock := 30000000000,
          calls := [CallWriteAll ''blocks/ab.deletion-by.A'', CallListPage ''blocks/ab'' 0 10]\<rparr>)
   \<and> ReserveAndGet store_ro [0xab] True (world_announced\<lparr>clock := 30000000000\<rparr>) =
       ReserveAndGet store_ro [0xab] True
         (sleep minute (world_announced\<lparr>clock := 30000000000,
            calls := [CallWriteAll ''blocks/ab.deletion-by.A'', CallListPage ''blocks/ab'' 0 10]\<rparr>))
   \<and> TIME_CONSTANT_BASE \<le> clock (world_announced\<lparr>clock := 2 * minute\<rparr>) - 0
   \<and> ReserveAndGet store_ro [0xab] False (world_announced\<lparr>clock := 2 * minute\<rparr>) =
       Some (Returned (None, True), world_announced\<lparr>clock := 2 * minute,
          calls := [CallWriteAll ''blocks/ab.deletion-by.A'', CallListPage ''blocks/ab'' 0 10]\<rparr>)"
proof -
  have ne: "[0xab :: byte] \<noteq> []" by simp
  have tag: "getATag store_A [0xab] BLOCK_DELETE_TAG = ''blocks/ab.deletion-by.A''"
    by (simp add: getATag_def key_ab BLOCK_DELETE_TAG_def store_A_def)
  have put: "if IsReadOnly store_ro then w = w
             else putATag store_ro [0xab] BLOCK_USE_TAG False w = (None, w)" for w
    using store_ro_read_only by simp
  have t1: "clock (world_announced\<lparr>clock := 30000000000\<rparr>) - clock world_ab < TIME_CONSTANT_BASE"
    by (simp add: TIME_CONSTANT_BASE_def minute_def world_ab_def)
  have t2: "TIME_CONSTANT_BASE \<le> clock (world_announced\<lparr>clock := 2 * minute\<rparr>) - 0"
    by (simp add: TIME_CONSTANT_BASE_def minute_def)
  have same: "map_of (objects (world_announced\<lparr>clock := 30000000000\<rparr>))
        (getATag store_A [0xab] BLOCK_DELETE_TAG) =
      map_of (objects world_announced) (getATag store_A [0xab] BLOCK_DELETE_TAG)"
    by simp
  have fresh: "reserveAndCheckExistence store_ro [0xab] (world_announced\<lparr>clock := 30000000000\<rparr>) =
       ((False, True), world_announced\<lparr>clock := 30000000000,
          calls := [CallWriteAll ''blocks/ab.deletion-by.A'', CallListPage ''blocks/ab'' 0 10]\<rparr>)
     \<and> ReserveAndGet store_ro [0xab] True (world_announced\<lparr>clock := 30000000000\<rparr>) =
       ReserveAndGet store_ro [0xab] True
         (sleep minute (world_announced\<lparr>clock := 30000000000,
            calls := [CallWriteAll ''blocks/ab.deletion-by.A'', CallListPage ''blocks/ab'' 0 10]\<rparr>))"
    using deletion_tag_freshness [OF ne put page_announced [of 30000000000],
        where a = store_A and ?w0.0 = world_ab and wa = world_announced
          and downloadData = True]
      announce_ab same t1
    by (simp add: tag)
  have stale: "ReserveAndGet store_ro [0xab] False (world_announced\<lparr>clock := 2 * minute\<rparr>) =
       Some (Returned (None, True), world_announced\<lparr>clock := 2 * minute,
          calls := [CallWriteAll ''blocks/ab.deletion-by.A'', CallListPage ''blocks/ab'' 0 10]\<rparr>)"
    using deletion_tag_freshness [OF ne put page_announced [of "2 * minute"],
        where a = store_A and ?w0.0 = world_ab and wa = world_announced
          and downloadData = True]
      t2
    by (simp add: key_ab is_delete_tag_def TIME_CONSTANT_BASE_def)
  show ?thesis
    using ne store_ro_read_only announce_ab tag t1 t2 fresh stale by simp
qed

lemma announce_stale9:
  "AnnounceDelete store_B [0xab] world_stale9 = (None, world_stale9_announced)"
  by (simp add: AnnounceDelete_def putATag_def IsReadOnly_def store_B_def getATag_def key_ab
      BLOCK_DELETE_TAG_def bucket_defs world_stale9_def world_stale9_announced_def tag0_def
      Let_def)

lemma keys_stale9:
  "sort (remdups (filter (prefix ''blocks/ab'')
     (map fst (objects world_stale9 @ [(''blocks/ab.deletion-by.B'', ob)])))) =
   map Key page9 @ [''blocks/ab.deletion-by.B'']"
  by code_simp

lemma objects_stale9:
  "map (list_object (world_stale9_announced\<lparr>calls := cs\<rparr>)) (map Key page9) = page9"
  by (simp add: page9_def list_object_def world_stale9_announced_def world_stale9_def tag0_def)

lemma page_stale9:
  "bucket_ListPage 0 10 (getBlockStringKey [0xab]) world_stale9_announced =
     (Inr (page9, Some 10),
      world_stale9_announced\<lparr>calls := [CallWriteAll ''blocks/ab.deletion-by.B'',
                                         CallListPage ''blocks/ab'' 0 10]\<rparr>)"
proof -
  have l: "listing ''blocks/ab'' (world_stale9_announced\<lparr>calls := cs\<rparr>) =
        page9 @ [list_object (world_stale9_announced\<lparr>calls := cs\<rparr>)
                   ''blocks/ab.deletion-by.B'']" for cs
    using keys_stale9 objects_stale9 [of cs]
    by (simp add: listing_def world_stale9_announced_def)
  have n: "length page9 = 10"
    by (simp add: page9_def)
  have f: "faults world_stale9_announced = []"
    "calls world_stale9_announced = [CallWriteAll ''blocks/ab.deletion-by.B'']"
    by (simp_all add: world_stale9_announced_def world_stale9_def)
  show ?thesis
    by (simp add: key_ab bucket_ListPage_def enter_call_def f l n Let_def)
qed

lemma check_stale9:
  "checkExistence [0xab] world_stale9_announced =
     ((True, False),
      world_stale9_announced\<lparr>calls := [CallWriteAll ''blocks/ab.deletion-by.B'',
                                         CallListPage ''blocks/ab'' 0 10]\<rparr>)"
proof -
  have "\<forall>e \<in> set page9. is_delete_tag (getBlockStringKey [0xab]) e \<longrightarrow>
          TIME_CONSTANT_BASE \<le> clock world_stale9_announced - ModTime e"
    by (simp add: page9_def world_stale9_announced_def world_stale9_def
        TIME_CONSTANT_BASE_def minute_def)
  with page_stale9 have "checkExistence [0xab] world_stale9_announced =
     ((getBlockStringKey [0xab] \<in> Key ` set page9, False),
      world_stale9_announced\<lparr>calls := [CallWriteAll ''blocks/ab.deletion-by.B'',
                                         CallListPage ''blocks/ab'' 0 10]\<rparr>)"
    by (rule checkExistence_stale)
  then show ?thesis
    by (simp add: key_ab page9_def)
qed

text \<open>
  C3 as stated fails. For the empty hash \<^verbatim>\<open>ReserveAndGet\<close> returns at once although
  \<^verbatim>\<open>AnnounceDelete\<close> has just succeeded. And with nine stale \<^verbatim>\<open>deletion-by\<close> tags of
  other participants sorting before it, a tag announced at the very time of the listing is
  the eleventh key under the block key: the page of ten does not show it and
  \<^verbatim>\<open>ReserveAndGet\<close> returns \<^verbatim>\<open>found=true\<close> without a retry.
\<close>

theorem deletion_tag_retry_counterexample:
  "AnnounceDelete store_A [] fresh_bucket =
     (None, fresh_bucket\<lparr>objects := [(''blocks/.deletion-by.A'', \<lparr>content = [], modTime = 0\<rparr>)],
              calls := [CallWriteAll ''blocks/.deletion-by.A'']\<rparr>)
   \<and> ReserveAndGet store_B [] True
        (fresh_bucket\<lparr>objects := [(''blocks/.deletion-by.A'', \<lparr>content = [], modTime = 0\<rparr>)],
              calls := [CallWriteAll ''blocks/.deletion-by.A'']\<rparr>) =
       Some (Returned (None, False),
        fresh_bucket\<lparr>objects := [(''blocks/.deletion-by.A'', \<lparr>content = [], modTime = 0\<rparr>)],
              calls := [CallWriteAll ''blocks/.deletion-by.A'']\<rparr>)
   \<and> AnnounceDelete store_B [0xab] world_stale9 = (None, world_stale9_announced)
   \<and> clock world_stale9_announced = clock world_stale9
   \<and> ReserveAndGet store_ro [0xab] False world_stale9_announced =
       Some (Returned (None, True),
         world_stale9_announced\<lparr>calls := [CallWriteAll ''blocks/ab.deletion-by.B'',
                                            CallListPage ''blocks/ab'' 0 10]\<rparr>)"
proof -
  have a: "AnnounceDelete store_A [] fresh_bucket =
     (None, fresh_bucket\<lparr>objects := [(''blocks/.deletion-by.A'', \<lparr>content = [], modTime = 0\<rparr>)],
              calls := [CallWriteAll ''blocks/.deletion-by.A'']\<rparr>)"
    by (simp add: AnnounceDelete_def putATag_def IsReadOnly_def store_A_def getATag_def
        getBlockStringKey_def BlockDataSubFolder_def HashToStringMapKey_def
        BLOCK_DELETE_TAG_def bucket_defs fresh_bucket_def Let_def)
  have "reserveAndCheckExistence store_ro [0xab] world_stale9_announced =
      ((True, False),
       world_stale9_announced\<lparr>calls := [CallWriteAll ''blocks/ab.deletion-by.B'',
                                          CallListPage ''blocks/ab'' 0 10]\<rparr>)"
    using store_ro_read_only check_stale9 by (simp add: reserveAndCheckExistence_def)
  then have "ReserveAndGet_loop store_ro [0xab] world_stale9_announced =
      Some (True,
       world_stale9_announced\<lparr>calls := [CallWriteAll ''blocks/ab.deletion-by.B'',
                                          CallListPage ''blocks/ab'' 0 10]\<rparr>)"
    by (rule loop_done)
  then have c: "ReserveAndGet store_ro [0xab] False world_stale9_announced =
       Some (Returned (None, True),
         world_stale9_announced\<lparr>calls := [CallWriteAll ''blocks/ab.deletion-by.B'',
                                            CallListPage ''blocks/ab'' 0 10]\<rparr>)"
    by (simp add: ReserveAndGet_def)
  show ?thesis
    using a c announce_stale9
    by (simp add: ReserveAndGet_def world_stale9_announced_def)
qed


section \<open>What a pass feeds to the builder\<close>

lemma ListPage_page:
  assumes "bucket_ListPage tok n pfx w = (Inr (page, nxt), w')"
  shows "page = take n (drop tok (listing pfx w))"
    and "nxt = (if tok + n < length (listing pfx w) then Some (tok + n) else None)"
    and "objects w' = objects w" and "clock w' = clock w"
proof -
  obtain f w1 where e: "enter_call (CallListPage pfx tok n) w = (f, w1)"
    by (cases "enter_call (CallListPage pfx tok n) w")
  with assms have "f = False" "w' = w1" "page = take n (drop tok (listing pfx w1))"
    "nxt = (if tok + n < length (listing pfx w1) then Some (tok + n) else None)"
    by (auto simp add: bucket_ListPage_def Let_def split: bool.splits)
  with enter_call_same [OF e] listing_cong [of w1 w pfx]
  show "page = take n (drop tok (listing pfx w))"
    and "nxt = (if tok + n < length (listing pfx w) then Some (tok + n) else None)"
    and "objects w' = objects w" and "clock w' = clock w"
    by simp_all
qed

lemma ListPage_error:
  "bucket_ListPage tok n pfx w = (Inl err, w') \<Longrightarrow> objects w' = objects w \<and> clock w' = clock w"
  by (auto simp add: bucket_ListPage_def enter_call_def Let_def split: list.splits bool.splits if_splits)

text \<open>What a pass has fed to the builder: a prefix of the listing, or all of it and close.\<close>

lemma loop_result:
  "IterateBlocksInternal_loop ctxDone pfx tok b w = ((e, b'), w') \<Longrightarrow>
   objects w' = objects w \<and> clock w' = clock w \<and>
   (if e = None
    then b' = close (fold (processObject (clock w)) (drop tok (listing pfx w)) b)
    else \<exists>n. b' = fold (processObject (clock w)) (take n (drop tok (listing pfx w))) b)"
proof (induction ctxDone pfx tok b w arbitrary: e b' w' rule: IterateBlocksInternal_loop.induct)
  case (1 ctxDone pfx tok b w)
  let ?L = "listing pfx w"
  let ?f = "processObject (clock w)"
  show ?case
  proof (cases ctxDone)
    case True
    with "1.prems" have "e = Some Canceled" "b' = b" "w' = w"
      by (simp_all add: IterateBlocksInternal_loop.simps)
    moreover have "\<exists>n. b = fold ?f (take n (drop tok ?L)) b"
      by (rule exI [of _ 0]) simp
    ultimately show ?thesis by simp
  next
    case False
    obtain r w1 where lp: "bucket_ListPage tok 4096 pfx w = (r, w1)"
      by (cases "bucket_ListPage tok 4096 pfx w")
    show ?thesis
    proof (cases r)
      case (Inl err)
      with lp False "1.prems" have "e = Some err" "b' = b" "w' = w1"
        by (simp_all add: IterateBlocksInternal_loop.simps)
      moreover have "\<exists>n. b = fold ?f (take n (drop tok ?L)) b"
        by (rule exI [of _ 0]) simp
      ultimately show ?thesis
        using ListPage_error [of tok 4096 pfx w err w1] lp Inl by simp
    next
      case (Inr pn)
      obtain page nxt where pn: "pn = (page, nxt)" by (cases pn)
      have lp': "bucket_ListPage tok 4096 pfx w = (Inr (page, nxt), w1)"
        using lp Inr pn by simp
      note pg = ListPage_page [OF lp']
      have L1: "listing pfx w1 = ?L"
        using pg(3) by (rule listing_cong)
      show ?thesis
      proof (cases nxt)
        case None
        with lp' False "1.prems" have res: "e = None" "b' = close (fold (processObject (clock w1)) page b)"
          "w' = w1"
          by (auto simp add: IterateBlocksInternal_loop.simps Let_def)
        from None pg(2) have "\<not> tok + 4096 < length ?L"
          by (simp split: if_splits)
        then have "page = drop tok ?L"
          using pg(1) by simp
        with res pg show ?thesis by simp
      next
        case (Some t)
        with pg(2) have t: "t = tok + 4096" "tok + 4096 < length ?L"
          by (simp_all split: if_splits)
        let ?b1 = "fold (processObject (clock w1)) page b"
        from lp' False Some "1.prems"
        have rec: "IterateBlocksInternal_loop ctxDone pfx t ?b1 w1 = ((e, b'), w')"
          by (subst (asm) IterateBlocksInternal_loop.simps) (simp add: Let_def)
        have IH: "objects w' = objects w1 \<and> clock w' = clock w1 \<and>
           (if e = None
            then b' = close (fold (processObject (clock w1)) (drop t (listing pfx w1)) ?b1)
            else \<exists>n. b' = fold (processObject (clock w1)) (take n (drop t (listing pfx w1))) ?b1)"
          using "1.IH" [OF False lp [symmetric] Inr pn [symmetric] refl Some rec] .
        have split: "drop tok ?L = page @ drop t ?L"
          using pg(1) t(1)
          by (metis add.commute append_take_drop_id drop_drop)
        have b1: "?b1 = fold ?f page b"
          using pg(4) by simp
        have oc: "objects w' = objects w" "clock w' = clock w"
          using IH pg by simp_all
        show ?thesis
        proof (cases e)
          case None
          with IH have "b' = close (fold ?f (drop t ?L) (fold ?f page b))"
            using L1 pg(4) by simp
          then have "b' = close (fold ?f (drop tok ?L) b)"
            using split by simp
          with None oc show ?thesis by simp
        next
          case (Some err)
          with IH obtain n where "b' = fold ?f (take n (drop t ?L)) (fold ?f page b)"
            using L1 pg(4) by auto
          then have "b' = fold ?f (page @ take n (drop t ?L)) b"
            by simp
          moreover have "page @ take n (drop t ?L) = take (length page + n) (drop tok ?L)"
            using split by simp
          ultimately have "\<exists>m. b' = fold ?f (take m (drop tok ?L)) b"
            by metis
          with Some oc show ?thesis by simp
        qed
      qed
    qed
  qed
qed

section \<open>The state of one block and the checked delete\<close>

lemma Split_nonempty: "Split r sep \<noteq> []"
  by (induction r) (auto split: list.splits)

lemma Split_no_sep: "sep \<notin> set a \<Longrightarrow> Split a sep = [a]"
  by (induction a) auto

lemma Split_at_sep: "sep \<notin> set a \<Longrightarrow> Split (a @ sep # r) sep = a # Split r sep"
  by (induction a) auto

lemma hex_no_dot: "CHR ''.'' \<notin> set (HashToStringMapKey h)"
  using hex_chars [of "CHR ''.''" h] by auto

lemma block_key_app: "getBlockStringKey h = ''blocks/'' @ HashToStringMapKey h"
  by (simp add: getBlockStringKey_def BlockDataSubFolder_def)

lemma proc_bare:
  "Key e = getBlockStringKey h \<Longrightarrow> processObject now e b = addData (HashToStringMapKey h) b"
  by (simp add: processObject_def CutPrefix_def block_key_app BlockDataSubFolder_def
      Split_no_sep hex_no_dot Let_def)

lemma proc_tag:
  assumes "Key e = getBlockStringKey h @ CHR ''.'' # r"
  shows "processObject now e b =
     (let el = Split r CHR ''.'' in
      if el ! 0 = BLOCK_USE_TAG \<and> length el \<ge> 2
      then addUse (HashToStringMapKey h) (el ! 1) b
      else if el ! 0 = BLOCK_DELETE_TAG
      then (if now - ModTime e < TIME_CONSTANT_BASE then addDelete (HashToStringMapKey h) b
            else b)
      else b)"
proof -
  have "Split (HashToStringMapKey h @ CHR ''.'' # r) CHR ''.'' =
        HashToStringMapKey h # Split r CHR ''.''"
    by (simp add: Split_at_sep hex_no_dot)
  moreover obtain x xs where "Split r CHR ''.'' = x # xs"
    using Split_nonempty [of r "CHR ''.''"] by (cases "Split r CHR ''.''") auto
  ultimately show ?thesis
    using assms
    by (cases xs)
      (simp_all add: processObject_def CutPrefix_def block_key_app BlockDataSubFolder_def
        Let_def)
qed

lemma proc_use:
  assumes "is_use_tag (getBlockStringKey h) e"
  shows "\<exists>who. processObject now e b = addUse (HashToStringMapKey h) who b"
proof -
  from assms obtain p where p: "Key e = getBlockStringKey h @ CHR ''.'' # (''used-by'' @ CHR ''.'' # p)"
    by (auto simp add: is_use_tag_def prefix_def BLOCK_USE_TAG_def)
  have s: "Split (''used-by'' @ CHR ''.'' # p) CHR ''.'' = ''used-by'' # Split p CHR ''.''"
    by (rule Split_at_sep) simp
  obtain x xs where x: "Split p CHR ''.'' = x # xs"
    using Split_nonempty [of p "CHR ''.''"] by (cases "Split p CHR ''.''") auto
  have "processObject now e b = addUse (HashToStringMapKey h) x b"
    unfolding proc_tag [OF p] s x
    by (simp add: BLOCK_USE_TAG_def)
  then show ?thesis by blast
qed

lemma proc_own:
  assumes "belongs_to_block h (Key e)"
  shows "processObject now e b = addData (HashToStringMapKey h) b \<and> Key e = getBlockStringKey h
       \<or> Key e \<noteq> getBlockStringKey h \<and>
         ((\<exists>who. processObject now e b = addUse (HashToStringMapKey h) who b)
          \<or> processObject now e b = addDelete (HashToStringMapKey h) b
          \<or> processObject now e b = b)"
proof (cases "Key e = getBlockStringKey h")
  case True
  then show ?thesis by (simp add: proc_bare)
next
  case False
  with assms obtain r where r: "Key e = getBlockStringKey h @ CHR ''.'' # r"
    by (auto simp add: belongs_to_block_def prefix_def)
  show ?thesis
    using False by (auto simp add: proc_tag [OF r] Let_def)
qed

lemma quiet_addData:
  "builder_quiet X b \<Longrightarrow> builder_holds X (addData X b)"
  by (auto simp add: builder_quiet_def builder_holds_def addData_def completeIfNextHash_def
      Let_def)

lemma quiet_addUse:
  "builder_quiet X b \<Longrightarrow> builder_quiet X (addUse X who b)
     \<and> dataExists (currentState (addUse X who b)) = dataExists (currentState b)"
  by (auto simp add: builder_quiet_def addUse_def completeIfNextHash_def IsAvailable_def
      emptyState_def Let_def)

lemma quiet_addDelete:
  "builder_quiet X b \<Longrightarrow> builder_quiet X (addDelete X b)
     \<and> dataExists (currentState (addDelete X b)) = dataExists (currentState b)"
  by (auto simp add: builder_quiet_def addDelete_def completeIfNextHash_def emptyState_def
      Let_def)

lemma holds_quiet: "builder_holds X b \<Longrightarrow> builder_quiet X b"
  by (simp add: builder_holds_def builder_quiet_def)

lemma holds_addData:
  "builder_holds X b \<Longrightarrow> builder_taken b \<Longrightarrow> builder_taken (addData X b)"
  by (auto simp add: builder_holds_def builder_taken_def addData_def completeIfNextHash_def
      Let_def)

lemma holds_addUse:
  "builder_holds X b \<Longrightarrow> builder_holds X (addUse X who b) \<and> builder_taken (addUse X who b)"
  by (auto simp add: builder_holds_def builder_taken_def addUse_def completeIfNextHash_def
      IsAvailable_def Let_def)

lemma holds_addDelete:
  "builder_holds X b \<Longrightarrow> builder_holds X (addDelete X b) \<and> builder_taken (addDelete X b)"
  by (auto simp add: builder_holds_def builder_taken_def addDelete_def completeIfNextHash_def
      Let_def)

lemma step_quiet:
  assumes "belongs_to_block h (Key e)" "builder_quiet (HashToStringMapKey h) b"
  shows "builder_quiet (HashToStringMapKey h) (processObject now e b)
       \<and> (Key e \<noteq> getBlockStringKey h \<longrightarrow>
            dataExists (currentState (processObject now e b)) = dataExists (currentState b))"
  using proc_own [OF assms(1), of now b] quiet_addData [OF assms(2)] quiet_addUse [OF assms(2)]
    quiet_addDelete [OF assms(2)] assms(2) holds_quiet
  by auto

lemma step_holds:
  assumes "belongs_to_block h (Key e)" "builder_holds (HashToStringMapKey h) b"
  shows "builder_holds (HashToStringMapKey h) (processObject now e b)
       \<and> (builder_taken b \<longrightarrow> builder_taken (processObject now e b))
       \<and> (is_use_tag (getBlockStringKey h) e \<longrightarrow> builder_taken (processObject now e b))"
proof -
  let ?X = "HashToStringMapKey h"
  have q: "builder_quiet ?X b"
    using assms(2) by (rule holds_quiet)
  have 1: "builder_holds ?X (processObject now e b)
       \<and> (builder_taken b \<longrightarrow> builder_taken (processObject now e b))"
    using proc_own [OF assms(1), of now b] quiet_addData [OF q] holds_addData [OF assms(2)]
      holds_addUse [OF assms(2)] holds_addDelete [OF assms(2)] assms(2)
    by auto
  have 2: "builder_taken (processObject now e b)" if "is_use_tag (getBlockStringKey h) e"
    using proc_use [OF that, of now b] holds_addUse [OF assms(2)] by auto
  from 1 2 show ?thesis by blast
qed

lemma fold_quiet:
  "\<forall>e \<in> set xs. belongs_to_block h (Key e) \<Longrightarrow> builder_quiet (HashToStringMapKey h) b \<Longrightarrow>
   builder_quiet (HashToStringMapKey h) (fold (processObject now) xs b)"
  by (induction xs arbitrary: b) (simp_all add: step_quiet)

lemma fold_nodata:
  "\<forall>e \<in> set xs. belongs_to_block h (Key e) \<and> Key e \<noteq> getBlockStringKey h \<Longrightarrow>
   builder_quiet (HashToStringMapKey h) b \<Longrightarrow>
   dataExists (currentState (fold (processObject now) xs b)) = dataExists (currentState b)"
proof (induction xs arbitrary: b)
  case Nil
  show ?case by simp
next
  case (Cons x xs)
  from Cons.prems have s: "builder_quiet (HashToStringMapKey h) (processObject now x b)"
    "dataExists (currentState (processObject now x b)) = dataExists (currentState b)"
    using step_quiet [of h x b now] by simp_all
  from Cons.prems have "\<forall>e \<in> set xs. belongs_to_block h (Key e) \<and> Key e \<noteq> getBlockStringKey h"
    by simp
  then have "dataExists (currentState (fold (processObject now) xs (processObject now x b))) =
      dataExists (currentState (processObject now x b))"
    using s(1) by (rule Cons.IH)
  with s(2) show ?case by simp
qed

lemma fold_holds:
  "\<forall>e \<in> set xs. belongs_to_block h (Key e) \<Longrightarrow> builder_holds (HashToStringMapKey h) b \<Longrightarrow>
   builder_holds (HashToStringMapKey h) (fold (processObject now) xs b)
   \<and> (builder_taken b \<longrightarrow> builder_taken (fold (processObject now) xs b))"
proof (induction xs arbitrary: b)
  case Nil
  then show ?case by simp
next
  case (Cons x xs)
  from Cons.prems have s: "builder_holds (HashToStringMapKey h) (processObject now x b)"
    "builder_taken b \<longrightarrow> builder_taken (processObject now x b)"
    using step_holds [of h x b now] by simp_all
  from Cons.prems have "\<forall>e \<in> set xs. belongs_to_block h (Key e)" by simp
  then have "builder_holds (HashToStringMapKey h)
        (fold (processObject now) xs (processObject now x b))
     \<and> (builder_taken (processObject now x b) \<longrightarrow>
          builder_taken (fold (processObject now) xs (processObject now x b)))"
    using s(1) by (rule Cons.IH)
  with s(2) show ?case by simp
qed

lemma fold_use:
  "u \<in> set xs \<Longrightarrow> is_use_tag (getBlockStringKey h) u \<Longrightarrow>
   \<forall>e \<in> set xs. belongs_to_block h (Key e) \<Longrightarrow> builder_holds (HashToStringMapKey h) b \<Longrightarrow>
   builder_taken (fold (processObject now) xs b)"
proof (induction xs arbitrary: b)
  case Nil
  then show ?case by simp
next
  case (Cons x xs)
  from Cons.prems have s: "builder_holds (HashToStringMapKey h) (processObject now x b)"
    "is_use_tag (getBlockStringKey h) x \<longrightarrow> builder_taken (processObject now x b)"
    using step_holds [of h x b now] by simp_all
  from Cons.prems have own: "\<forall>e \<in> set xs. belongs_to_block h (Key e)" by simp
  show ?case
  proof (cases "u = x")
    case True
    with Cons.prems s(2) have "builder_taken (processObject now x b)" by simp
    then show ?thesis
      using fold_holds [OF own s(1), of now] by simp
  next
    case False
    with Cons.prems have "u \<in> set xs" by auto
    then have "builder_taken (fold (processObject now) xs (processObject now x b))"
      using Cons.prems(2) own s(1) by (rule Cons.IH)
    then show ?thesis by simp
  qed
qed

lemma prefix_le: "prefix a b \<Longrightarrow> a \<le> (b :: string)"
proof -
  have "a \<le> a @ c" for c :: string
    by (induction a) auto
  then show "prefix a b \<Longrightarrow> a \<le> b"
    by (auto simp add: prefix_def)
qed

lemma listing_keys:
  "map Key (listing pfx w) = sort (remdups (filter (prefix pfx) (map fst (objects w))))"
proof -
  have "map Key (map (list_object w) ks) = ks" for ks
    by (induction ks) (simp_all add: Key_list_object)
  then show ?thesis
    by (simp add: listing_def)
qed

lemma listing_strict: "sorted_wrt (<) (map Key (listing pfx w))"
  by (simp add: listing_keys strict_sorted_iff)

lemma listing_member:
  "k \<in> fst ` set (objects w) \<Longrightarrow> prefix pfx k \<Longrightarrow> k \<in> Key ` set (listing pfx w)"
proof -
  assume "k \<in> fst ` set (objects w)" "prefix pfx k"
  then have "k \<in> set (map Key (listing pfx w))"
    unfolding listing_keys by auto
  then show ?thesis by simp
qed

lemma listing_head:
  assumes "pfx \<in> Key ` set (listing pfx w)"
  shows "\<exists>x xs. listing pfx w = x # xs \<and> Key x = pfx \<and> pfx \<notin> Key ` set xs"
proof -
  from assms obtain x xs where l: "listing pfx w = x # xs"
    by (cases "listing pfx w") auto
  have le: "pfx \<le> Key x"
    using listing_entry [of x pfx w] l prefix_le by simp
  have lt: "\<forall>y \<in> set xs. Key x < Key y"
    using listing_strict [of pfx w] l by simp
  with le have "pfx \<notin> Key ` set xs" by auto
  moreover from this assms l have "Key x = pfx" by auto
  ultimately show ?thesis
    using l by blast
qed

declare IterateBlocksInternal_loop.simps [simp del]

lemma taken_not_free: "builder_taken b \<Longrightarrow> \<not> IsAvailableAndFree (currentState b)"
  by (auto simp add: builder_taken_def IsAvailableAndFree_def IsAvailable_def)

lemma empty_not_free: "\<not> IsAvailableAndFree emptyState"
  by (simp add: IsAvailableAndFree_def IsAvailable_def emptyState_def)

lemma close_quiet_nodata:
  "builder_quiet X b \<Longrightarrow> \<not> dataExists (currentState b) \<Longrightarrow> emitted (close b) = []"
  by (simp add: builder_quiet_def close_def completeIfNextHash_def Let_def)

lemma close_holds:
  "builder_holds X b \<Longrightarrow>
   emitted (close b) = [] \<or> emitted (close b) = [(StringMapKeyToHashNoError X, currentState b)]"
  by (simp add: builder_holds_def close_def completeIfNextHash_def Let_def)

lemma new_quiet: "builder_quiet X (NewHashBlockStorageMapBuilder own)"
  by (simp add: builder_quiet_def NewHashBlockStorageMapBuilder_def emptyState_def)

lemma new_nodata: "\<not> dataExists (currentState (NewHashBlockStorageMapBuilder own))"
  by (simp add: NewHashBlockStorageMapBuilder_def emptyState_def)

lemma IterateBlocksInternal_result:
  assumes "IterateBlocksInternal ctxDone hm (HashToStringMapKey h) w = ((e, recs), w')"
  shows "objects w' = objects w \<and> clock w' = clock w \<and>
     (if e = None
      then recs = emitted (close (fold (processObject (clock w)) (listing (getBlockStringKey h) w)
                     (NewHashBlockStorageMapBuilder (myDeviceId hm))))
      else \<exists>n. recs = emitted (fold (processObject (clock w))
                     (take n (listing (getBlockStringKey h) w))
                     (NewHashBlockStorageMapBuilder (myDeviceId hm))))"
proof -
  obtain e' b' w1 where l: "IterateBlocksInternal_loop ctxDone (getBlockStringKey h) 0
      (NewHashBlockStorageMapBuilder (myDeviceId hm)) w = ((e', b'), w1)"
    by (metis surj_pair)
  then have "IterateBlocksInternal ctxDone hm (HashToStringMapKey h) w = ((e', emitted b'), w1)"
    by (simp add: IterateBlocksInternal_def getBlockStringKey_def Let_def)
  with assms have "e' = e" "recs = emitted b'" "w1 = w'"
    by simp_all
  with loop_result [OF l] show ?thesis
    by auto
qed

lemma GetBlockHashState_objects:
  "objects (snd (GetBlockHashState ctxDone hm h w)) = objects w
   \<and> clock (snd (GetBlockHashState ctxDone hm h w)) = clock w"
proof -
  obtain e recs w' where i: "IterateBlocksInternal ctxDone hm (HashToStringMapKey h) w = ((e, recs), w')"
    by (metis surj_pair)
  show ?thesis
    using IterateBlocksInternal_result [OF i] by (simp add: GetBlockHashState_def i)
qed

lemma GetBlockHashState_reserved:
  assumes tag: "used_by_tag h p \<in> fst ` set (objects w)"
    and own: "only_own_keys h w"
  shows "\<not> IsAvailableAndFree (fst (GetBlockHashState ctxDone hm h w))"
proof -
  let ?pfx = "getBlockStringKey h"
  let ?X = "HashToStringMapKey h"
  let ?L = "listing ?pfx w"
  let ?f = "processObject (clock w)"
  let ?b0 = "NewHashBlockStorageMapBuilder (myDeviceId hm)"
  obtain e recs w' where i: "IterateBlocksInternal ctxDone hm ?X w = ((e, recs), w')"
    by (metis surj_pair)
  note res = IterateBlocksInternal_result [OF i]
  have st: "fst (GetBlockHashState ctxDone hm h w) = fold (\<lambda>d blockState. snd d) recs emptyState"
    by (simp add: GetBlockHashState_def i)
  have ownL: "\<forall>x \<in> set ?L. belongs_to_block h (Key x)"
  proof
    fix x assume "x \<in> set ?L"
    then have "prefix ?pfx (Key x)" "Key x \<in> fst ` set (objects w)"
      using listing_entry [of x ?pfx w] by simp_all
    with own show "belongs_to_block h (Key x)"
      by (auto simp add: only_own_keys_def list_all_iff)
  qed
  have quiet_any: "emitted (fold ?f (take n ?L) ?b0) = []" for n
  proof -
    have "\<forall>x \<in> set (take n ?L). belongs_to_block h (Key x)"
      using ownL by (meson in_set_takeD)
    then have "builder_quiet ?X (fold ?f (take n ?L) ?b0)"
      using new_quiet by (rule fold_quiet)
    then show ?thesis by (simp add: builder_quiet_def)
  qed
  show ?thesis
  proof (cases e)
    case (Some err)
    with res quiet_any have "recs = []" by auto
    then show ?thesis
      by (simp add: st empty_not_free)
  next
    case None
    with res have recs: "recs = emitted (close (fold ?f ?L ?b0))" by simp
    show ?thesis
    proof (cases "?pfx \<in> Key ` set ?L")
      case False
      then have "\<forall>x \<in> set ?L. Key x \<noteq> ?pfx"
        by (metis image_eqI)
      with ownL have "\<forall>x \<in> set ?L. belongs_to_block h (Key x) \<and> Key x \<noteq> ?pfx"
        by simp
      then have "dataExists (currentState (fold ?f ?L ?b0)) = dataExists (currentState ?b0)"
        using new_quiet by (rule fold_nodata)
      then have "\<not> dataExists (currentState (fold ?f ?L ?b0))"
        using new_nodata by simp
      moreover have "builder_quiet ?X (fold ?f ?L ?b0)"
        using ownL new_quiet by (rule fold_quiet)
      ultimately have "recs = []"
        using recs close_quiet_nodata by simp
      then show ?thesis
        by (simp add: st empty_not_free)
    next
      case True
      then obtain x xs where l: "?L = x # xs" "Key x = ?pfx"
        using listing_head [of ?pfx w] by blast
      have tagp: "prefix ?pfx (used_by_tag h p)"
        by (simp add: used_by_tag_def)
      then have "used_by_tag h p \<in> Key ` set ?L"
        using tag listing_member by simp
      then obtain u where u: "u \<in> set ?L" "Key u = used_by_tag h p"
        by auto
      have "used_by_tag h p \<noteq> ?pfx"
        by (simp add: used_by_tag_def)
      with u l have uxs: "u \<in> set xs" by auto
      have ut: "is_use_tag ?pfx u"
        by (simp add: is_use_tag_def u(2) used_by_tag_def)
      have ownxs: "\<forall>e \<in> set xs. belongs_to_block h (Key e)"
        using ownL l by simp
      have h1: "builder_holds ?X (?f x ?b0)"
        using proc_bare [OF l(2), of "clock w" ?b0] quiet_addData [OF new_quiet, of ?X "myDeviceId hm"]
        by simp
      have taken: "builder_taken (fold ?f xs (?f x ?b0))"
        using uxs ut ownxs h1 by (rule fold_use)
      have holds: "builder_holds ?X (fold ?f xs (?f x ?b0))"
        using fold_holds [OF ownxs h1] by simp
      have "fold ?f ?L ?b0 = fold ?f xs (?f x ?b0)"
        using l by simp
      with recs close_holds [OF holds]
      have "recs = [] \<or> recs = [(StringMapKeyToHashNoError ?X, currentState (fold ?f xs (?f x ?b0)))]"
        by simp
      then show ?thesis
        using taken_not_free [OF taken] by (auto simp add: st empty_not_free)
    qed
  qed
qed

text \<open>
  Where no stored hash extends \<^verbatim>\<open>H\<close> the store protects a reserved block. Let the bucket
  hold a \<^verbatim>\<open>used-by\<close> tag for \<^verbatim>\<open>H\<close>, written by any participant, and let every key that
  starts with the block key of \<^verbatim>\<open>H\<close> be a key of \<^verbatim>\<open>H\<close> itself (as when all hashes have
  one length). Then the state that the store reports for \<^verbatim>\<open>H\<close> is not
  \<^verbatim>\<open>IsAvailableAndFree\<close>, and the worker of the spec changes no object of the bucket,
  neither when it starts on that bucket nor when it re-queries it. When the tag is there at
  the re-query after the wait (written meanwhile by another participant) the objects are
  those of the re-query: the body of \<^verbatim>\<open>H\<close> is kept.
\<close>

lemma checked_delete_keeps_reserved:
  "(used_by_tag h p \<in> fst ` set (objects w) \<and> only_own_keys h w \<longrightarrow>
      \<not> IsAvailableAndFree (fst (GetBlockHashState ctxDone hm h w))
    \<and> objects (checkedDelete hm h others w) = objects w
    \<and> objects (checkedDelete_finish hm h w) = objects w)
   \<and> (fst (checkedDelete_announce hm h w0)
       \<and> w = others (sleep TIME_CONSTANT_BASE (snd (checkedDelete_announce hm h w0)))
       \<and> used_by_tag h p \<in> fst ` set (objects w) \<and> only_own_keys h w \<longrightarrow>
      objects (checkedDelete hm h others w0) = objects w)"
proof (intro conjI impI)
  have keep: "checkedDelete_announce hm h w = (False, snd (GetBlockHashState False hm h w))
      \<and> checkedDelete_finish hm h w = snd (GetBlockHashState False hm h w)"
    if "\<not> IsAvailableAndFree (fst (GetBlockHashState False hm h w))" for w
  proof -
    obtain st w1 where g: "GetBlockHashState False hm h w = (st, w1)"
      by (metis surj_pair)
    with that have "\<not> IsAvailableAndFree st" by simp
    with g show ?thesis
      by (simp add: checkedDelete_announce_def checkedDelete_finish_def)
  qed
  {
    assume a: "used_by_tag h p \<in> fst ` set (objects w) \<and> only_own_keys h w"
    then show nf: "\<not> IsAvailableAndFree (fst (GetBlockHashState ctxDone hm h w))"
      for ctxDone
      using GetBlockHashState_reserved by blast
    show "objects (checkedDelete hm h others w) = objects w"
      using keep [OF nf [of False]] by (simp add: checkedDelete_def GetBlockHashState_objects)
    show "objects (checkedDelete_finish hm h w) = objects w"
      using keep [OF nf [of False]] by (simp add: GetBlockHashState_objects)
  }
  {
    assume b: "fst (checkedDelete_announce hm h w0)
       \<and> w = others (sleep TIME_CONSTANT_BASE (snd (checkedDelete_announce hm h w0)))
       \<and> used_by_tag h p \<in> fst ` set (objects w) \<and> only_own_keys h w"
    then have nf: "\<not> IsAvailableAndFree (fst (GetBlockHashState False hm h w))"
      using GetBlockHashState_reserved by blast
    have "objects (checkedDelete_finish hm h w) = objects w"
      using keep [OF nf] by (simp add: GetBlockHashState_objects)
    moreover from b have "checkedDelete hm h others w0 = checkedDelete_finish hm h w"
      by (cases "checkedDelete_announce hm h w0") (simp add: checkedDelete_def)
    ultimately show "objects (checkedDelete hm h others w0) = objects w"
      by simp
  }
qed

lemma state_ab_free:
  "GetBlockHashState False store_A [0xab] world_ab =
     (st_free, world_ab\<lparr>calls := [CallListPage ''blocks/ab'' 0 4096]\<rparr>)"
  by (simp add: GetBlockHashState_def IterateBlocksInternal_def
      IterateBlocksInternal_loop.simps [of False] BlockDataSubFolder_def
      HashToStringMapKey_def hex_byte_def hextable_def bucket_ListPage_def enter_call_def
      listing_def list_object_def world_ab_def processObject_def CutPrefix_def
      NewHashBlockStorageMapBuilder_def addData_def completeIfNextHash_def close_def
      emptyState_def st_free_def hex_val_def store_A_def Let_def)

lemma worker_prefix: "objects (checkedDelete store_A [0xab] id world_prefix) =
     [(''blocks/ab.used-by.B'', \<lparr>content = [], modTime = 0\<rparr>),
      (''blocks/abcd'', \<lparr>content = [4], modTime = 0\<rparr>)]"
  by code_simp

lemma tag_ab_B: "used_by_tag [0xab] ''B'' = ''blocks/ab.used-by.B''"
  by code_simp

lemma own_reserved: "only_own_keys [0xab] world_reserved"
  by code_simp

lemma announce_world_ab: "checkedDelete_announce store_A [0xab] world_ab =
    (True, world_ab\<lparr>objects := objects world_ab @
                [(''blocks/ab.deletion-by.A'', \<lparr>content = [], modTime = 0\<rparr>)],
              calls := [CallListPage ''blocks/ab'' 0 4096,
                        CallWriteAll ''blocks/ab.deletion-by.A'']\<rparr>)"
  by code_simp

lemma objects_grace: "objects (reserve_B (sleep TIME_CONSTANT_BASE
     (world_ab\<lparr>objects := objects world_ab @
                [(''blocks/ab.deletion-by.A'', \<lparr>content = [], modTime = 0\<rparr>)],
              calls := [CallListPage ''blocks/ab'' 0 4096,
                        CallWriteAll ''blocks/ab.deletion-by.A'']\<rparr>))) =
    [(''blocks/ab'', \<lparr>content = [1, 2, 3], modTime = 0\<rparr>),
     (''blocks/ab.deletion-by.A'', \<lparr>content = [], modTime = 0\<rparr>),
     (''blocks/ab.used-by.B'', \<lparr>content = [], modTime = 60000000000\<rparr>)]"
  by code_simp

lemma objects_world_grace:
  "objects world_grace =
    [(''blocks/ab'', \<lparr>content = [1, 2, 3], modTime = 0\<rparr>),
     (''blocks/ab.deletion-by.A'', \<lparr>content = [], modTime = 0\<rparr>),
     (''blocks/ab.used-by.B'', \<lparr>content = [], modTime = 60000000000\<rparr>)]"
  unfolding world_grace_def announce_world_ab snd_conv by (rule objects_grace)

lemma checked_delete_keeps_reserved_witness:
  "used_by_tag [0xab] ''B'' \<in> fst ` set (objects world_reserved)
   \<and> only_own_keys [0xab] world_reserved
   \<and> \<not> IsAvailableAndFree (fst (GetBlockHashState False store_A [0xab] world_reserved))
   \<and> objects (checkedDelete store_A [0xab] id world_reserved) = objects world_reserved
   \<and> fst (checkedDelete_announce store_A [0xab] world_ab)
   \<and> used_by_tag [0xab] ''B'' \<in> fst ` set (objects world_grace)
   \<and> only_own_keys [0xab] world_grace
   \<and> objects (checkedDelete store_A [0xab] reserve_B world_ab) = objects world_grace
   \<and> map_of (objects (checkedDelete store_A [0xab] reserve_B world_ab)) (getBlockStringKey [0xab]) =
       Some \<lparr>content = [1, 2, 3], modTime = 0\<rparr>"
proof -
  have t1: "used_by_tag [0xab] ''B'' \<in> fst ` set (objects world_reserved)"
    by (simp add: tag_ab_B world_reserved_def)
  have a: "fst (checkedDelete_announce store_A [0xab] world_ab)"
    by (simp add: announce_world_ab)
  have t2: "used_by_tag [0xab] ''B'' \<in> fst ` set (objects world_grace)"
    by (simp add: tag_ab_B objects_world_grace)
  have o2: "only_own_keys [0xab] world_grace"
    by (simp add: only_own_keys_def objects_world_grace belongs_to_block_def key_ab)
  have 1: "\<not> IsAvailableAndFree (fst (GetBlockHashState False store_A [0xab] world_reserved))
      \<and> objects (checkedDelete store_A [0xab] id world_reserved) = objects world_reserved"
    using checked_delete_keeps_reserved [of "[0xab]" "''B''" world_reserved False store_A id]
      t1 own_reserved by blast
  have 2: "objects (checkedDelete store_A [0xab] reserve_B world_ab) = objects world_grace"
    using checked_delete_keeps_reserved [where h = "[0xab]" and p = "''B''" and w = world_grace
        and hm = store_A and others = reserve_B and ?w0.0 = world_ab]
      a t2 o2 by (simp add: world_grace_def)
  show ?thesis
    using t1 own_reserved 1 a t2 o2 2 by (simp add: objects_world_grace key_ab)
qed

lemma pass_prefix:
  "fst (IterateBlocksInternal False store_A (HashToStringMapKey [0xab]) world_prefix) =
     (None, [([0xab], st_others), ([0xab, 0xcd], st_free)])"
  by code_simp

lemma state_prefix:
  "fst (GetBlockHashState False store_A [0xab] world_prefix) = st_free"
  by code_simp

lemma free_states: "IsAvailableAndFree st_free" "\<not> IsAvailableAndFree st_others"
  by (simp_all add: st_free_def st_others_def emptyState_def IsAvailableAndFree_def
      IsAvailable_def)

text \<open>
  C1: the store reports the state of another block. The bucket holds the block \<^verbatim>\<open>ab\<close>
  with a \<^verbatim>\<open>used-by\<close> tag of participant B, and the block \<^verbatim>\<open>abcd\<close> without a tag.
  \<^verbatim>\<open>GetBlockHashState\<close> of \<^verbatim>\<open>ab\<close> lists the prefix \<^verbatim>\<open>blocks/ab\<close>, which the key of
  \<^verbatim>\<open>abcd\<close> has too. The pass emits the record of \<^verbatim>\<open>ab\<close>, reserved by others, then that
  of \<^verbatim>\<open>abcd\<close>, free; the callback keeps the last record, so the state reported for
  \<^verbatim>\<open>ab\<close> is that of \<^verbatim>\<open>abcd\<close>: \<^verbatim>\<open>IsAvailableAndFree\<close>. The worker of the spec, run by
  participant A on that state, deletes the body of \<^verbatim>\<open>ab\<close> while the tag of B is in the
  bucket.
\<close>

theorem GetBlockHashState_longer_hash:
  "used_by_tag [0xab] ''B'' \<in> fst ` set (objects world_prefix)
   \<and> map_of (objects world_prefix) (getBlockStringKey [0xab]) =
       Some \<lparr>content = [1, 2, 3], modTime = 0\<rparr>
   \<and> fst (IterateBlocksInternal False store_A (HashToStringMapKey [0xab]) world_prefix) =
       (None, [([0xab], st_others), ([0xab, 0xcd], st_free)])
   \<and> \<not> IsAvailableAndFree st_others
   \<and> fst (GetBlockHashState False store_A [0xab] world_prefix) = st_free
   \<and> IsAvailableAndFree (fst (GetBlockHashState False store_A [0xab] world_prefix))
   \<and> objects (checkedDelete store_A [0xab] id world_prefix) =
       [(used_by_tag [0xab] ''B'', \<lparr>content = [], modTime = 0\<rparr>),
        (getBlockStringKey [0xab, 0xcd], \<lparr>content = [4], modTime = 0\<rparr>)]
   \<and> map_of (objects (checkedDelete store_A [0xab] id world_prefix)) (getBlockStringKey [0xab]) =
       None"
proof -
  have k: "getBlockStringKey [0xab, 0xcd] = ''blocks/abcd''"
    by (simp add: getBlockStringKey_def BlockDataSubFolder_def HashToStringMapKey_def
        hex_byte_def hextable_def)
  have o: "objects world_prefix =
      [(''blocks/ab'', \<lparr>content = [1, 2, 3], modTime = 0\<rparr>),
       (''blocks/ab.used-by.B'', \<lparr>content = [], modTime = 0\<rparr>),
       (''blocks/abcd'', \<lparr>content = [4], modTime = 0\<rparr>)]"
    by (simp add: world_prefix_def)
  show ?thesis
    by (simp add: worker_prefix tag_ab_B key_ab k o pass_prefix state_prefix free_states)
qed

section \<open>The order of the enumeration\<close>

lemma Split_length: "(length (Split s c) \<le> 1) = (c \<notin> set s)"
proof (cases "c \<in> set s")
  case True
  then obtain a r where "s = a @ c # r" "c \<notin> set a"
    by (meson split_list_first)
  then have "Split s c = a # Split r c"
    by (simp add: Split_at_sep)
  with True show ?thesis
    using Split_nonempty [of r c] by (cases "Split r c") auto
next
  case False
  then show ?thesis by (simp add: Split_no_sep)
qed

lemma proc_cases:
  "(CHR ''.'' \<notin> set (key_name (Key e)) \<longrightarrow>
      processObject now e b = addData (key_name (Key e)) b)
   \<and> (CHR ''.'' \<in> set (key_name (Key e)) \<longrightarrow>
      (\<exists>X who. processObject now e b = addUse X who b)
      \<or> (\<exists>X. processObject now e b = addDelete X b)
      \<or> processObject now e b = b)"
  using Split_length [of "key_name (Key e)" "CHR ''.''"]
  by (auto simp add: processObject_def key_name_def BlockDataSubFolder_def Let_def)

lemma subseq_snoc: "subseq xs ys \<Longrightarrow> subseq (xs @ [h]) (ys @ [h])"
  by simp

lemma subseq_butlast: "subseq (ks @ p) bs \<Longrightarrow> subseq ks bs"
  by (metis list_emb_append_mono subseq_order.order_refl subseq_order.order_trans
      append_Nil2 list_emb_Nil)

lemma inv_complete:
  assumes "emit_inv b ks bs"
  shows "\<exists>ks'. map fst (emitted (snd (completeIfNextHash h b))) =
            map StringMapKeyToHashNoError ks'
          \<and> subseq ks' bs
          \<and> (h = currentHash b \<longrightarrow> snd (completeIfNextHash h b) = b)
          \<and> (h \<noteq> currentHash b \<longrightarrow>
               currentState (snd (completeIfNextHash h b)) = emptyState)
          \<and> currentHash (snd (completeIfNextHash h b)) = h
          \<and> fst (completeIfNextHash h b) = False"
proof (cases "h = currentHash b")
  case True
  have "subseq ks bs"
    using assms subseq_butlast by (simp add: emit_inv_def) blast
  with True assms show ?thesis
    by (auto simp add: completeIfNextHash_def emit_inv_def)
next
  case False
  show ?thesis
  proof (cases "dataExists (currentState b)")
    case True
    with False assms have "map fst (emitted (snd (completeIfNextHash h b))) =
        map StringMapKeyToHashNoError (ks @ [currentHash b])"
      "subseq (ks @ [currentHash b]) bs"
      by (simp_all add: completeIfNextHash_def emit_inv_def pending_def Let_def)
    with False show ?thesis
      by (intro exI [of _ "ks @ [currentHash b]"]) (simp add: completeIfNextHash_def Let_def)
  next
    case nd: False
    with False assms have "map fst (emitted (snd (completeIfNextHash h b))) =
        map StringMapKeyToHashNoError ks" "subseq ks bs"
      by (simp_all add: completeIfNextHash_def emit_inv_def pending_def Let_def)
    with False show ?thesis
      by (intro exI [of _ ks]) (simp add: completeIfNextHash_def Let_def)
  qed
qed


lemma inv_addData:
  assumes "emit_inv b ks bs"
  shows "\<exists>ks'. emit_inv (addData h b) ks' (bs @ [h])"
proof -
  obtain ks' where c: "map fst (emitted (snd (completeIfNextHash h b))) =
            map StringMapKeyToHashNoError ks'" "subseq ks' bs"
      "currentHash (snd (completeIfNextHash h b)) = h" "fst (completeIfNextHash h b) = False"
    using inv_complete [OF assms, of h] by blast
  obtain b1 where b1: "completeIfNextHash h b = (False, b1)"
    using c(4) by (cases "completeIfNextHash h b") simp
  have "emit_inv (b1\<lparr>currentState := (currentState b1)\<lparr>dataExists := True\<rparr>\<rparr>) ks' (bs @ [h])"
    using c b1 by (simp add: emit_inv_def pending_def)
  then show ?thesis
    using b1 by (auto simp add: addData_def)
qed

lemma inv_addUse:
  assumes "emit_inv b ks bs"
  shows "\<exists>ks'. emit_inv (addUse X who b) ks' bs"
proof (cases "X = currentHash b")
  case True
  then have "completeIfNextHash X b = (False, b)"
    by (simp add: completeIfNextHash_def)
  then have "emitted (addUse X who b) = emitted b" "pending (addUse X who b) = pending b"
    by (simp_all add: addUse_def pending_def Let_def)
  with assms have "emit_inv (addUse X who b) ks bs"
    by (simp add: emit_inv_def)
  then show ?thesis by blast
next
  case False
  obtain ks' where c: "map fst (emitted (snd (completeIfNextHash X b))) =
            map StringMapKeyToHashNoError ks'" "subseq ks' bs"
      "currentState (snd (completeIfNextHash X b)) = emptyState"
      "fst (completeIfNextHash X b) = False"
    using inv_complete [OF assms, of X] False by blast
  obtain b1 where b1: "completeIfNextHash X b = (False, b1)"
    using c(4) by (cases "completeIfNextHash X b") simp
  with c have "addUse X who b = b1"
    by (simp add: addUse_def IsAvailable_def emptyState_def)
  moreover have "emit_inv b1 ks' bs"
    using c b1 by (simp add: emit_inv_def pending_def emptyState_def)
  ultimately show ?thesis by auto
qed

lemma inv_addDelete:
  assumes "emit_inv b ks bs"
  shows "\<exists>ks'. emit_inv (addDelete X b) ks' bs"
proof (cases "X = currentHash b")
  case True
  then have "completeIfNextHash X b = (False, b)"
    by (simp add: completeIfNextHash_def)
  then have "emitted (addDelete X b) = emitted b" "pending (addDelete X b) = pending b"
    by (simp_all add: addDelete_def pending_def)
  with assms have "emit_inv (addDelete X b) ks bs"
    by (simp add: emit_inv_def)
  then show ?thesis by blast
next
  case False
  obtain ks' where c: "map fst (emitted (snd (completeIfNextHash X b))) =
            map StringMapKeyToHashNoError ks'" "subseq ks' bs"
      "currentState (snd (completeIfNextHash X b)) = emptyState"
      "fst (completeIfNextHash X b) = False"
    using inv_complete [OF assms, of X] False by blast
  obtain b1 where b1: "completeIfNextHash X b = (False, b1)"
    using c(4) by (cases "completeIfNextHash X b") simp
  have "emit_inv (b1\<lparr>currentState := (currentState b1)\<lparr>deletionPending := True\<rparr>\<rparr>) ks' bs"
    using c b1 by (simp add: emit_inv_def pending_def emptyState_def)
  then show ?thesis
    using b1 by (auto simp add: addDelete_def)
qed

lemma bare_keys_snoc:
  "bare_keys (xs @ [e]) =
     bare_keys xs @ (if CHR ''.'' \<notin> set (key_name (Key e)) then [key_name (Key e)] else [])"
  by (simp add: bare_keys_def)

lemma inv_step:
  assumes "emit_inv b ks (bare_keys xs)"
  shows "\<exists>ks'. emit_inv (processObject now e b) ks' (bare_keys (xs @ [e]))"
proof (cases "CHR ''.'' \<in> set (key_name (Key e))")
  case False
  then show ?thesis
    using proc_cases [of e now b] inv_addData [OF assms, of "key_name (Key e)"]
    by (simp add: bare_keys_snoc)
next
  case True
  then have "(\<exists>X who. processObject now e b = addUse X who b)
      \<or> (\<exists>X. processObject now e b = addDelete X b)
      \<or> processObject now e b = b"
    using proc_cases [of e now b] by blast
  then have "\<exists>ks'. emit_inv (processObject now e b) ks' (bare_keys xs)"
    using inv_addUse [OF assms] inv_addDelete [OF assms] assms by metis
  with True show ?thesis
    by (simp add: bare_keys_snoc)
qed

lemma inv_fold:
  "emit_inv b ks (bare_keys xs) \<Longrightarrow>
   \<exists>ks'. emit_inv (fold (processObject now) ys b) ks' (bare_keys (xs @ ys))"
proof (induction ys arbitrary: b ks xs)
  case Nil
  then show ?case by auto
next
  case (Cons y ys)
  obtain ks1 where "emit_inv (processObject now y b) ks1 (bare_keys (xs @ [y]))"
    using inv_step [OF Cons.prems] by blast
  then have "\<exists>ks'. emit_inv (fold (processObject now) ys (processObject now y b)) ks'
      (bare_keys ((xs @ [y]) @ ys))"
    by (rule Cons.IH)
  then show ?case by simp
qed

lemma inv_new: "emit_inv (NewHashBlockStorageMapBuilder own) [] (bare_keys [])"
  by (simp add: emit_inv_def pending_def NewHashBlockStorageMapBuilder_def emptyState_def
      bare_keys_def)

lemma inv_emitted:
  assumes "emit_inv b ks bs"
  shows "\<exists>ks'. map fst (emitted b) = map StringMapKeyToHashNoError ks' \<and> subseq ks' bs"
    and "\<exists>ks'. map fst (emitted (close b)) = map StringMapKeyToHashNoError ks' \<and> subseq ks' bs"
proof -
  show "\<exists>ks'. map fst (emitted b) = map StringMapKeyToHashNoError ks' \<and> subseq ks' bs"
    using assms subseq_butlast by (simp add: emit_inv_def) blast
  show "\<exists>ks'. map fst (emitted (close b)) = map StringMapKeyToHashNoError ks' \<and> subseq ks' bs"
    using inv_complete [OF assms, of "[]"] unfolding close_def by blast
qed

lemma bare_keys_take: "subseq (bare_keys (take n xs)) (bare_keys xs)"
proof -
  have "bare_keys xs = bare_keys (take n xs) @ bare_keys (drop n xs)"
    by (metis append_take_drop_id bare_keys_def filter_append map_append)
  then show ?thesis
    by (metis list_emb_append_mono subseq_order.order_refl append_Nil2 list_emb_Nil)
qed

text \<open>The hashes of the records of a pass decode a subsequence of the bare names listed.\<close>

lemma pass_names:
  assumes "IterateBlocksInternal ctxDone hm (HashToStringMapKey h) w = ((e, recs), w')"
  shows "\<exists>ks. map fst recs = map StringMapKeyToHashNoError ks
           \<and> subseq ks (bare_keys (listing (getBlockStringKey h) w))"
proof -
  let ?L = "listing (getBlockStringKey h) w"
  let ?f = "processObject (clock w)"
  let ?b0 = "NewHashBlockStorageMapBuilder (myDeviceId hm)"
  note res = IterateBlocksInternal_result [OF assms]
  show ?thesis
  proof (cases e)
    case None
    obtain ks1 where "emit_inv (fold ?f ?L ?b0) ks1 (bare_keys ?L)"
      using inv_fold [OF inv_new [of "myDeviceId hm"], where now = "clock w" and ys = ?L] by auto
    then show ?thesis
      using inv_emitted(2) res None by auto
  next
    case (Some err)
    with res obtain n where n: "recs = emitted (fold ?f (take n ?L) ?b0)"
      by auto
    obtain ks1 where "emit_inv (fold ?f (take n ?L) ?b0) ks1 (bare_keys (take n ?L))"
      using inv_fold [OF inv_new [of "myDeviceId hm"], where now = "clock w" and ys = "take n ?L"]
      by auto
    then obtain ks2 where "map fst recs = map StringMapKeyToHashNoError ks2"
      "subseq ks2 (bare_keys (take n ?L))"
      using inv_emitted(1) n by blast
    then show ?thesis
      using bare_keys_take [of n ?L] subseq_order.order_trans by blast
  qed
qed

lemma subseq_subset: "subseq xs ys \<Longrightarrow> set xs \<subseteq> set ys"
  by (induction rule: list_emb.induct) auto

lemma subseq_sorted_wrt: "subseq xs ys \<Longrightarrow> sorted_wrt P ys \<Longrightarrow> sorted_wrt P xs"
proof (induction rule: list_emb.induct)
  case (list_emb_Nil ys)
  show ?case by simp
next
  case (list_emb_Cons xs ys y)
  then show ?case by simp
next
  case (list_emb_Cons2 x y xs ys)
  then have "set xs \<subseteq> set ys"
    using subseq_subset by blast
  with list_emb_Cons2 show ?case by auto
qed

lemma append_less_same_length:
  "length p = length q \<Longrightarrow> (p @ r < q @ r') = (p < q \<or> p = q \<and> r < (r' :: 'a :: linorder list))"
  by (induction p q rule: list_induct2) auto

lemma hex_Cons: "HashToStringMapKey (b # h) = hex_byte b @ HashToStringMapKey h"
  by (simp add: HashToStringMapKey_def)

lemma divmod_less:
  assumes "(n :: nat) < m"
  shows "n div 16 < m div 16 \<or> n div 16 = m div 16 \<and> n mod 16 < m mod 16"
proof (cases "n div 16 = m div 16")
  case True
  have "n = 16 * (n div 16) + n mod 16" "m = 16 * (m div 16) + m mod 16" by simp_all
  with True assms have "n mod 16 < m mod 16" by linarith
  with True show ?thesis by simp
next
  case False
  moreover have "n div 16 \<le> m div 16" using assms by (simp add: div_le_mono)
  ultimately show ?thesis by linarith
qed

lemma hex_byte_less:
  assumes "b < b'" shows "hex_byte b < hex_byte b'"
proof -
  from assms have lt: "unat b < unat b'" by (simp add: word_less_nat_alt)
  have b': "unat b' div 16 < 16" "unat b' mod 16 < 16" by (simp_all add: unat_byte_div)
  from divmod_less [OF lt] show ?thesis
  proof
    assume "unat b div 16 < unat b' div 16"
    then have "hextable ! (unat b div 16) < hextable ! (unat b' div 16)"
      using b'(1) by (rule hextable_less)
    then show ?thesis by (simp add: hex_byte_def)
  next
    assume a: "unat b div 16 = unat b' div 16 \<and> unat b mod 16 < unat b' mod 16"
    then have "hextable ! (unat b mod 16) < hextable ! (unat b' mod 16)"
      using b'(2) by (simp add: hextable_less)
    with a show ?thesis by (simp add: hex_byte_def)
  qed
qed

text \<open>The hex encoding and the decoding of hex keys keep the order.\<close>

lemma hex_mono: "h < h' \<Longrightarrow> HashToStringMapKey h < HashToStringMapKey h'"
proof (induction h arbitrary: h')
  case Nil
  then obtain b t where "h' = b # t" by (cases h') auto
  then show ?case
    by (simp add: hex_Cons hex_byte_def HashToStringMapKey_def)
next
  case (Cons b h)
  then obtain b' t where h': "h' = b' # t" by (cases h') auto
  with Cons.prems have "b < b' \<or> b = b' \<and> h < t" by simp
  then have "hex_byte b < hex_byte b'
      \<or> hex_byte b = hex_byte b' \<and> HashToStringMapKey h < HashToStringMapKey t"
    using hex_byte_less Cons.IH by auto
  then show ?case
    using append_less_same_length [of "hex_byte b" "hex_byte b'"]
    by (simp add: h' hex_Cons hex_byte_def)
qed

lemma dec_mono:
  assumes "is_hash_name k1" "is_hash_name k2" "k1 < k2"
  shows "StringMapKeyToHashNoError k1 < StringMapKeyToHashNoError k2"
proof (rule ccontr)
  let ?h1 = "StringMapKeyToHashNoError k1"
  let ?h2 = "StringMapKeyToHashNoError k2"
  assume "\<not> ?h1 < ?h2"
  then have "?h2 < ?h1 \<or> ?h2 = ?h1" by auto
  then have "HashToStringMapKey ?h2 < HashToStringMapKey ?h1
      \<or> HashToStringMapKey ?h2 = HashToStringMapKey ?h1"
    using hex_mono by auto
  with assms show False
    by (auto simp add: is_hash_name_def)
qed

lemma shard_head:
  assumes "is_hash_name k" "prefix (HashToStringMapKey [b]) k"
  shows "\<exists>t. StringMapKeyToHashNoError k = b # t"
proof -
  let ?h = "StringMapKeyToHashNoError k"
  from assms(1) have k: "HashToStringMapKey ?h = k"
    by (simp add: is_hash_name_def)
  from assms(2) obtain r where r: "k = hex_byte b @ r"
    by (auto simp add: prefix_def HashToStringMapKey_def)
  show ?thesis
  proof (cases ?h)
    case Nil
    then have "HashToStringMapKey ?h = []"
      by (simp add: HashToStringMapKey_def)
    with k have "k = []" by simp
    with r show ?thesis
      by (simp add: hex_byte_def)
  next
    case (Cons b' t)
    then have "HashToStringMapKey ?h = hex_byte b' @ HashToStringMapKey t"
      by (simp only: hex_Cons)
    with k have "hex_byte b' @ HashToStringMapKey t = k" by simp
    with r have "hex_byte b' @ HashToStringMapKey t = hex_byte b @ r" by simp
    then have "hex_byte b' = hex_byte b"
      by (simp add: hex_byte_def)
    then have "HashToStringMapKey [b'] = HashToStringMapKey [b]"
      by (simp add: HashToStringMapKey_def)
    then have "b' = b"
      by (rule hex_inj [THEN list.inject [THEN iffD1, THEN conjunct1]])
    with Cons show ?thesis by simp
  qed
qed

lemma listing_names:
  assumes "e \<in> set (listing (getBlockStringKey h) w)"
  shows "Key e = ''blocks/'' @ key_name (Key e)"
    and "prefix (HashToStringMapKey h) (key_name (Key e))"
    and "prefix ''blocks/'' (Key e)" and "Key e \<in> fst ` set (objects w)"
proof -
  from listing_entry [OF assms] have p: "prefix (getBlockStringKey h) (Key e)"
    and k: "Key e \<in> fst ` set (objects w)"
    by simp_all
  from p obtain r where r: "Key e = getBlockStringKey h @ r"
    by (auto simp add: prefix_def)
  then have n: "key_name (Key e) = HashToStringMapKey h @ r"
    by (simp add: key_name_def CutPrefix_def block_key_app)
  show 1: "Key e = ''blocks/'' @ key_name (Key e)"
    using r n by (simp add: block_key_app)
  show "prefix ''blocks/'' (Key e)"
    using 1 by (metis prefixI)
  show "prefix (HashToStringMapKey h) (key_name (Key e))"
    using n by simp
  show "Key e \<in> fst ` set (objects w)" by (rule k)
qed

lemma bare_keys_listing:
  "sorted_wrt (<) (bare_keys (listing (getBlockStringKey h) w))"
  "k \<in> set (bare_keys (listing (getBlockStringKey h) w)) \<Longrightarrow>
     prefix (HashToStringMapKey h) k \<and> (bare_keys_are_hashes w \<longrightarrow> is_hash_name k)"
proof -
  let ?L = "listing (getBlockStringKey h) w"
  have "sorted_wrt (\<lambda>x y. Key x < Key y) ?L"
    using listing_strict [of "getBlockStringKey h" w] by (simp add: sorted_wrt_map)
  then have "sorted_wrt (\<lambda>x y. key_name (Key x) < key_name (Key y)) ?L"
  proof (rule sorted_wrt_mono_rel [rotated])
    fix x y assume "x \<in> set ?L" "y \<in> set ?L" "Key x < Key y"
    then show "key_name (Key x) < key_name (Key y)"
      using listing_names(1) [of x h w] listing_names(1) [of y h w]
        append_less_append [of "''blocks/''" "key_name (Key x)" "key_name (Key y)"]
      by simp
  qed
  then have "sorted_wrt (<) (map (\<lambda>e. key_name (Key e)) ?L)"
    by (simp add: sorted_wrt_map)
  then show "sorted_wrt (<) (bare_keys ?L)"
    unfolding bare_keys_def by (rule sorted_wrt_filter)
  assume "k \<in> set (bare_keys ?L)"
  then obtain e where e: "e \<in> set ?L" "k = key_name (Key e)" "CHR ''.'' \<notin> set k"
    by (auto simp add: bare_keys_def)
  have "is_hash_name k" if wf: "bare_keys_are_hashes w"
  proof -
    from wf have "\<forall>k \<in> fst ` set (objects w).
        prefix ''blocks/'' k \<and> CHR ''.'' \<notin> set (key_name k) \<longrightarrow> is_hash_name (key_name k)"
      by (simp add: bare_keys_are_hashes_def list_all_iff)
    with listing_names(3,4) [OF e(1)] e(2,3) show ?thesis
      by blast
  qed
  then show "prefix (HashToStringMapKey h) k \<and> (bare_keys_are_hashes w \<longrightarrow> is_hash_name k)"
    using listing_names(2) [OF e(1)] e(2) by simp
qed

lemma pass_sorted:
  assumes wf: "bare_keys_are_hashes w"
    and pass: "IterateBlocksInternal ctxDone hm (HashToStringMapKey [b]) w = ((e, recs), w')"
  shows "sorted_wrt (<) (map fst recs)" and "\<forall>x \<in> set (map fst recs). \<exists>t. x = b # t"
proof -
  let ?B = "bare_keys (listing (getBlockStringKey [b]) w)"
  obtain ks where ks: "map fst recs = map StringMapKeyToHashNoError ks" "subseq ks ?B"
    using pass_names [OF pass] by blast
  have names: "is_hash_name k \<and> prefix (HashToStringMapKey [b]) k" if "k \<in> set ks" for k
    using that subseq_subset [OF ks(2)] bare_keys_listing(2) [of k "[b]" w] wf by auto
  have "sorted_wrt (<) ks"
    using ks(2) bare_keys_listing(1) by (rule subseq_sorted_wrt)
  then have "sorted_wrt (<) (map StringMapKeyToHashNoError ks)"
  proof (rule sorted_wrt_map_mono)
    fix x y assume "x \<in> set ks" "y \<in> set ks" "x < y"
    then show "StringMapKeyToHashNoError x < StringMapKeyToHashNoError y"
      using names dec_mono by blast
  qed
  then show "sorted_wrt (<) (map fst recs)"
    by (simp add: ks(1))
  show "\<forall>x \<in> set (map fst recs). \<exists>t. x = b # t"
  proof
    fix x assume "x \<in> set (map fst recs)"
    then obtain k where "k \<in> set ks" "x = StringMapKeyToHashNoError k"
      unfolding ks(1) by auto
    then show "\<exists>t. x = b # t"
      using names shard_head by blast
  qed
qed

text \<open>
  The layout holds in an empty bucket and every write of the store keeps it: a block key is
  the hex key of its hash, a tag key has the separator, a metadata key is outside the
  block folder.
\<close>

lemma wf_set:
  "bare_keys_are_hashes w =
     (\<forall>k \<in> fst ` set (objects w).
        prefix ''blocks/'' k \<and> CHR ''.'' \<notin> set (key_name k) \<longrightarrow> is_hash_name (key_name k))"
  by (simp add: bare_keys_are_hashes_def list_all_iff)

lemma block_key_layout:
  "key_name (getBlockStringKey h) = HashToStringMapKey h"
  "is_hash_name (HashToStringMapKey h)"
  "CHR ''.'' \<in> set (key_name (getBlockStringKey h @ ''.'' @ r))"
  "\<not> prefix ''blocks/'' (getMetadataStringKey name)"
  by (simp_all add: key_name_def CutPrefix_def getBlockStringKey_def BlockDataSubFolder_def
      is_hash_name_def decode_encode getMetadataStringKey_def MetaDataSubFolder_def)

lemma layout_subset:
  assumes "bare_keys_are_hashes w"
    and "fst ` set (objects w') \<subseteq> insert key (fst ` set (objects w))"
    and "prefix ''blocks/'' key \<and> CHR ''.'' \<notin> set (key_name key) \<longrightarrow> is_hash_name (key_name key)"
  shows "bare_keys_are_hashes w'"
  using assms unfolding wf_set by blast

lemma keys_WriteAll:
  "fst ` set (objects (snd (bucket_WriteAll key data w))) \<subseteq> insert key (fst ` set (objects w))"
proof -
  have "fst ` set (AList.update key ob (objects w)) \<subseteq> insert key (fst ` set (objects w))" for ob
    by (simp add: AList.dom_update)
  then show ?thesis
    by (simp add: bucket_WriteAll_def enter_call_def split: list.splits bool.splits) blast
qed

lemma keys_Delete:
  "fst ` set (objects (snd (bucket_Delete key w))) \<subseteq> fst ` set (objects w)"
proof -
  have "fst ` set (AList.delete key (objects w)) \<subseteq> fst ` set (objects w)"
    by (auto simp add: AList.delete_eq)
  then show ?thesis
    by (auto simp add: bucket_Delete_def enter_call_def split: list.splits bool.splits)
qed

lemma layout_WriteAll:
  assumes "bare_keys_are_hashes w"
    and "prefix ''blocks/'' key \<and> CHR ''.'' \<notin> set (key_name key) \<longrightarrow> is_hash_name (key_name key)"
  shows "bare_keys_are_hashes (snd (bucket_WriteAll key data w))"
  using assms(1) keys_WriteAll assms(2) by (rule layout_subset)

lemma layout_Delete:
  assumes "bare_keys_are_hashes w"
  shows "bare_keys_are_hashes (snd (bucket_Delete key w))"
  using assms keys_Delete [of key w] unfolding wf_set by blast

lemma layout_Exists:
  "bare_keys_are_hashes (snd (bucket_Exists key w)) = bare_keys_are_hashes w"
  by (auto simp add: wf_set bucket_Exists_def enter_call_def split: list.splits bool.splits)

lemma layout_putATag:
  assumes "bare_keys_are_hashes w"
  shows "bare_keys_are_hashes (snd (putATag hm h tag updateTime w))"
proof -
  let ?k = "getATag hm h tag"
  have k: "prefix ''blocks/'' ?k \<and> CHR ''.'' \<notin> set (key_name ?k) \<longrightarrow> is_hash_name (key_name ?k)"
    using block_key_layout(3) [of h "tag @ ''.'' @ myDeviceId hm"] by (simp add: getATag_def)
  have w: "bare_keys_are_hashes (snd (bucket_WriteAll ?k [] w'))" if "bare_keys_are_hashes w'" for w'
    using that k by (rule layout_WriteAll)
  have e: "bare_keys_are_hashes (snd (bucket_Exists ?k w))"
    using assms by (simp add: layout_Exists)
  show ?thesis
    using assms w [of w] w [of "snd (bucket_Exists ?k w)"] e
    by (auto simp add: putATag_def Let_def split: prod.splits sum.splits)
qed

lemma layout_store:
  assumes "bare_keys_are_hashes w"
  shows "bare_keys_are_hashes (snd (ReserveAndSet hm h data w))"
    and "bare_keys_are_hashes (snd (AnnounceDelete hm h w))"
    and "bare_keys_are_hashes (snd (DeAnnounceDelete hm h w))"
    and "bare_keys_are_hashes (snd (UncheckedDelete hm h w))"
    and "bare_keys_are_hashes (snd (DeleteReservation hm h w))"
    and "bare_keys_are_hashes (SetMeta hm name data w)"
    and "bare_keys_are_hashes (DeleteMeta hm name w)"
proof -
  have warn: "bare_keys_are_hashes (Warnf m w)" for m
    using assms by (simp add: wf_set Warnf_def)
  have rm: "bare_keys_are_hashes (snd (removeATag hm h tag w))" for tag
    using assms layout_Delete [OF assms] by (simp add: removeATag_def)
  show "bare_keys_are_hashes (snd (AnnounceDelete hm h w))"
    using assms by (simp add: AnnounceDelete_def layout_putATag)
  show "bare_keys_are_hashes (snd (DeAnnounceDelete hm h w))"
    using rm by (simp add: DeAnnounceDelete_def)
  show "bare_keys_are_hashes (snd (UncheckedDelete hm h w))"
    using assms layout_Delete [OF assms] by (simp add: UncheckedDelete_def)
  show "bare_keys_are_hashes (snd (DeleteReservation hm h w))"
    using rm [of BLOCK_USE_TAG] by (auto simp add: DeleteReservation_def split: prod.splits option.splits)
  show "bare_keys_are_hashes (SetMeta hm name data w)"
    using warn layout_WriteAll [OF assms, of "getMetadataStringKey name" data]
    by (simp add: SetMeta_def block_key_layout)
  show "bare_keys_are_hashes (DeleteMeta hm name w)"
    using warn layout_Delete [OF assms] by (simp add: DeleteMeta_def)
  show "bare_keys_are_hashes (snd (ReserveAndSet hm h data w))"
  proof -
    let ?w1 = "snd (putATag hm h BLOCK_USE_TAG False w)"
    have 1: "bare_keys_are_hashes ?w1"
      using assms by (rule layout_putATag)
    have "bare_keys_are_hashes (snd (bucket_WriteAll (getBlockStringKey h) data ?w1))"
      using 1 by (rule layout_WriteAll) (simp add: block_key_layout)
    with 1 warn show ?thesis
      by (auto simp add: ReserveAndSet_def split: prod.splits option.splits)
  qed
qed

lemma layout_fresh: "bare_keys_are_hashes fresh_bucket"
  by (simp add: bare_keys_are_hashes_def fresh_bucket_def)

lemma wf_cong: "objects w' = objects w \<Longrightarrow> bare_keys_are_hashes w' = bare_keys_are_hashes w"
  by (simp add: bare_keys_are_hashes_def)

lemma byte_of_nat_less:
  assumes "unat (b :: byte) < i" "i < 256"
  shows "b < of_nat i"
proof -
  have "unat (of_nat i :: byte) = i"
    using assms(2) by (simp add: unat_of_nat)
  with assms(1) show ?thesis
    by (simp add: word_less_nat_alt)
qed

text \<open>
  The hashes of shard \<open>i\<close> start with the byte \<open>i\<close>, so the records of a shard follow
  those of the shards before it.
\<close>

lemma shards_sorted:
  assumes "bare_keys_are_hashes w"
    and "sorted_wrt (<) shards" and "\<forall>i \<in> set shards. i < 256"
    and "sorted_wrt (<) (map fst acc)"
    and "\<forall>x \<in> set (map fst acc). \<exists>b t. x = b # t \<and> (\<forall>i \<in> set shards. unat b < i)"
    and "IterateBlocks_shards hm shards acc w = ((e, recs), w')"
  shows "sorted_wrt (<) (map fst recs)"
  using assms
proof (induction shards arbitrary: acc w)
  case Nil
  then show ?case by simp
next
  case (Cons i shards)
  let ?b = "of_nat i :: byte"
  obtain e1 r1 w1 where
    pass: "IterateBlocksInternal False hm (HashToStringMapKey [?b]) w = ((e1, r1), w1)"
    by (metis surj_pair)
  have i: "i < 256" using Cons.prems(3) by simp
  have ui: "unat ?b = i" using i by (simp add: unat_of_nat)
  have s1: "sorted_wrt (<) (map fst r1)"
    and h1: "\<forall>x \<in> set (map fst r1). \<exists>t. x = ?b # t"
    using pass_sorted [OF Cons.prems(1) pass] by simp_all
  have cross: "x < y" if "x \<in> set (map fst acc)" "y \<in> set (map fst r1)" for x y
  proof -
    from that(1) Cons.prems(5) obtain b t where x: "x = b # t" "unat b < i"
      by fastforce
    from that(2) h1 obtain t' where y: "y = ?b # t'" by blast
    have "b < ?b" using x(2) i by (rule byte_of_nat_less)
    with x y show ?thesis by simp
  qed
  have sorted: "sorted_wrt (<) (map fst (acc @ r1))"
    using Cons.prems(4) s1 cross by (simp add: sorted_wrt_append)
  show ?case
  proof (cases e1)
    case (Some err)
    with Cons.prems(6) pass have "recs = acc @ r1"
      by (simp add: Let_def)
    with sorted show ?thesis by simp
  next
    case None
    with Cons.prems(6) pass have run: "IterateBlocks_shards hm shards (acc @ r1) w1 = ((e, recs), w')"
      by (simp add: Let_def)
    have wf1: "bare_keys_are_hashes w1"
      using IterateBlocksInternal_result [OF pass] Cons.prems(1) wf_cong [of w1 w] by simp
    have later: "\<forall>j \<in> set shards. i < j"
      using Cons.prems(2) by simp
    have heads: "\<forall>x \<in> set (map fst (acc @ r1)).
        \<exists>b t. x = b # t \<and> (\<forall>j \<in> set shards. unat b < j)"
    proof
      fix x assume "x \<in> set (map fst (acc @ r1))"
      then consider "x \<in> set (map fst acc)" | "x \<in> set (map fst r1)" by auto
      then show "\<exists>b t. x = b # t \<and> (\<forall>j \<in> set shards. unat b < j)"
      proof cases
        case 1
        with Cons.prems(5) obtain b t where "x = b # t" "\<forall>j \<in> set (i # shards). unat b < j"
          by blast
        then show ?thesis by auto
      next
        case 2
        with h1 obtain t where "x = ?b # t" by blast
        with later ui show ?thesis by auto
      qed
    qed
    show ?thesis
      using wf1 _ _ sorted heads run
    proof (rule Cons.IH)
      show "sorted_wrt (<) shards" using Cons.prems(2) by simp
      show "\<forall>i \<in> set shards. i < 256" using Cons.prems(3) by simp
    qed
  qed
qed

lemma layout_world_three: "bare_keys_are_hashes world_three"
  by code_simp

lemma shards_world_three:
  "fst (IterateBlocks_shards store_A [1, 0xab] [] world_three) =
     (None, [([1], st_free), ([0xab], st_others), ([0xab, 0xcd], st_free)])"
  by code_simp

text \<open>
  C5. Let every bare key of the block folder be the block key of a hash, as the key schema
  has it and as every write of the store keeps it. Then the records of a full enumeration
  (the passes of the 256 shards, handed to the callback in the order of the shards) have
  strictly increasing hashes in the lexicographic order of byte strings, whatever the
  outcome of the bucket calls: also when a shard fails and the enumeration ends with its
  error.
\<close>

theorem enumeration_increasing:
  "bare_keys_are_hashes w \<Longrightarrow>
   sorted_wrt (<) (map fst (snd (fst (IterateBlocks ctxDone hm w))))"
proof (cases ctxDone)
  case True
  then show ?thesis by (simp add: IterateBlocks_def)
next
  case False
  assume wf: "bare_keys_are_hashes w"
  obtain e recs w' where run: "IterateBlocks_shards hm [0..<256] [] w = ((e, recs), w')"
    by (metis surj_pair)
  have "sorted_wrt (<) (map fst recs)"
    using wf _ _ _ _ run
  proof (rule shards_sorted)
    show "sorted_wrt (<) [0..<256]" by (simp only: sorted_wrt_upt)
    show "\<forall>i \<in> set [0..<256]. i < 256" by (simp only: set_upt) simp
    show "sorted_wrt (<) (map fst [])" by simp
    show "\<forall>x \<in> set (map fst []). \<exists>b t. x = b # t \<and> (\<forall>i \<in> set [0..<256]. unat b < i)"
      by simp
  qed
  with False run show ?thesis
    by (simp only: IterateBlocks_def if_False fst_conv snd_conv)
qed

theorem enumeration_increasing_witness:
  "bare_keys_are_hashes world_three
   \<and> sorted_wrt (<) (map fst (snd (fst (IterateBlocks False store_A world_three))))"
  using enumeration_increasing [of world_three False store_A]
  by (simp add: layout_world_three)

end
